theory Spec2Isabelle
  imports Complex_Main "HOL-Library.Log_Nat"
begin

section \<open>Contact search across AddressBook databases\<close>

text \<open>
  A shallow embedding of the contact search of the iMessage package: the predicate
  builder, the per-database count and fetch queries, the aggregation over several
  databases, the normalisation of the fetched rows, and the pagination metadata.

  Conventions of the model.
  \<^item> A JavaScript string is a \<open>string\<close>; \<open>.length\<close> is \<open>length\<close>. The functions
    below look only at the ASCII characters \<open>0\<close>..\<open>9\<close>, \<open>+\<close>, \<open>|\<close> and the space.
  \<^item> \<open>string | null\<close> and \<open>string | undefined\<close> are \<open>string option\<close>. JavaScript's
    truthiness test on such a value holds for \<open>Some s\<close> with \<open>s\<close> non-empty only.
  \<^item> The numbers \<open>limit\<close>, \<open>offset\<close> and the counts are integer-valued (\<open>int\<close>).
    The arithmetic of the pagination metadata is that of IEEE 754 doubles: a sum and a
    quotient are rounded to the nearest double, ties to even, and a quotient by zero is
    an infinity or NaN (\<open>js_number\<close>). The counters of the aggregation loop are added
    and subtracted exactly, as doubles do below \<open>2^53\<close>; the counts of a database
    stay far below that.
  \<^item> A database is the query capability the code consumes: what \<open>prepare(q).get(ps)\<close>
    and \<open>prepare(q).all(ps)\<close> answer, either of which may throw.
\<close>

subsection \<open>Data model\<close>

datatype handle_kind = phone_kind | email_kind

text \<open>
  \<open>interface ContactHandleRow\<close>: one row of the JOIN query. Field selectors carry the
  prefix \<open>row_\<close> (and \<open>info_\<close>, \<open>page_\<close> below), which leaves the plain names to the
  parameters of the functions.
\<close>

record ContactHandleRow =
  row_firstName :: "string option"
  row_lastName :: "string option"
  row_organization :: "string option"
  row_handle :: string
  row_handle_type :: handle_kind

text \<open>
  Modelled from the spec: \<open>types.ts\<close> (\<open>ContactInfo\<close>, \<open>PaginatedResult\<close>) is not among
  the sources; the fields are those of the object literals that
  \<open>transformToContactInfo\<close> and \<open>searchContactsByName\<close> build, and of the spec's
  ContactEntry and PaginationWindow.
\<close>

record ContactInfo =
  info_name :: string
  info_phone :: string

subsection \<open>JavaScript strings\<close>

text \<open>\<open>Array.prototype.join\<close> on an array of strings.\<close>

fun js_join :: "string \<Rightarrow> string list \<Rightarrow> string" where
  "js_join sep [] = []"
| "js_join sep [x] = x"
| "js_join sep (x # y # ys) = x @ sep @ js_join sep (y # ys)"

text \<open>\<open>String.prototype.startsWith\<close>.\<close>

definition startsWith :: "string \<Rightarrow> string \<Rightarrow> bool" where
  "startsWith s p \<longleftrightarrow> take (length p) s = p"

text \<open>The character class \<open>\d\<close> of a JavaScript regular expression without the unicode flag.\<close>

definition is_digit :: "char \<Rightarrow> bool" where
  "is_digit c \<longleftrightarrow> c \<in> set ''0123456789''"

text \<open>Truthiness of a \<open>string | null\<close> or \<open>string | undefined\<close> value.\<close>

fun truthy :: "string option \<Rightarrow> bool" where
  "truthy None = False"
| "truthy (Some s) = (s \<noteq> [])"

subsection \<open>buildFullName\<close>

text \<open>
  \<^verbatim>\<open>
  const nameParts: string[] = [];
  if (firstName) nameParts.push(firstName);
  if (lastName) nameParts.push(lastName);
  if (nameParts.length === 0 && organization) nameParts.push(organization);
  return nameParts.join(" ") || "Unknown";
  \<close>
\<close>

fun push_if :: "bool \<Rightarrow> string option \<Rightarrow> string list \<Rightarrow> string list" where
  "push_if c (Some s) parts = (if c \<and> s \<noteq> [] then parts @ [s] else parts)"
| "push_if c None parts = parts"

definition buildFullName :: "string option \<Rightarrow> string option \<Rightarrow> string option \<Rightarrow> string" where
  "buildFullName firstName lastName organization =
     (let nameParts0 = [];
          nameParts1 = push_if True firstName nameParts0;
          nameParts2 = push_if True lastName nameParts1;
          nameParts3 = push_if (length nameParts2 = 0) organization nameParts2;
          joined = js_join '' '' nameParts3
      in if joined \<noteq> [] then joined else ''Unknown'')"

text \<open>
  The derivation as the specification words it: the parts are the non-null first and
  last name; with neither, the organisation if it is non-null; the parts joined by one
  space, and \<open>Unknown\<close> if that is empty.
\<close>

definition spec_buildFullName :: "string option \<Rightarrow> string option \<Rightarrow> string option \<Rightarrow> string" where
  "spec_buildFullName firstName lastName organization =
     (let parts = (case firstName of None \<Rightarrow> [] | Some f \<Rightarrow> [f])
                  @ (case lastName of None \<Rightarrow> [] | Some l \<Rightarrow> [l]);
          parts' = (if firstName = None \<and> lastName = None
                    then (case organization of None \<Rightarrow> [] | Some g \<Rightarrow> [g]) else parts);
          joined = js_join '' '' parts'
      in if joined \<noteq> [] then joined else ''Unknown'')"

subsection \<open>normalizePhoneNumber\<close>

text \<open>
  \<open>phone.replace(/[^\d+]/g, "")\<close> deletes every character that is neither a digit nor
  a plus sign, wherever it stands.
\<close>

definition cleaned :: "string \<Rightarrow> string" where
  "cleaned phone = filter (\<lambda>c. is_digit c \<or> c = CHR ''+'') phone"

definition normalizePhoneNumber :: "string \<Rightarrow> string" where
  "normalizePhoneNumber phone =
     (let c = cleaned phone
      in if startsWith c ''+'' then c
         else if length c = 10 then ''+1'' @ c
         else if length c = 11 \<and> startsWith c ''1'' then ''+'' @ c
         else if c \<noteq> [] then c else phone)"

text \<open>
  The cleaning as the specification words it, "strip every character except digits and
  a leading plus": a plus sign is kept only where nothing has been kept before it.
\<close>

fun spec_strip :: "bool \<Rightarrow> string \<Rightarrow> string" where
  "spec_strip leading [] = []"
| "spec_strip leading (c # cs) =
     (if is_digit c \<or> (c = CHR ''+'' \<and> leading) then c # spec_strip False cs
      else spec_strip leading cs)"

definition spec_normalizePhoneNumber :: "string \<Rightarrow> string" where
  "spec_normalizePhoneNumber phone =
     (let c = spec_strip True phone
      in if startsWith c ''+'' then c
         else if length c = 10 \<and> list_all is_digit c then ''+1'' @ c
         else if length c = 11 \<and> list_all is_digit c \<and> startsWith c ''1'' then ''+'' @ c
         else if c \<noteq> [] then c else phone)"

subsection \<open>transformToContactInfo\<close>

text \<open>
  The loop over the rows, with the set \<open>seen\<close> of keys and the array \<open>results\<close> as
  explicit state. The key of an entry is the template string \<open>name|handle\<close>.
\<close>

definition dedupKey :: "string \<Rightarrow> string \<Rightarrow> string" where
  "dedupKey name handle = name @ ''|'' @ handle"

fun transformRows :: "ContactHandleRow list \<Rightarrow> string set \<Rightarrow> ContactInfo list \<Rightarrow> ContactInfo list" where
  "transformRows [] seen results = results"
| "transformRows (row # rows) seen results =
     (let name = buildFullName (row_firstName row) (row_lastName row) (row_organization row);
          handle = (if row_handle_type row = phone_kind
                    then normalizePhoneNumber (row_handle row) else row_handle row)
      in if handle = [] then transformRows rows seen results
         else let key = dedupKey name handle
              in if key \<in> seen then transformRows rows seen results
                 else transformRows rows (insert key seen)
                        (results @ [\<lparr>info_name = name, info_phone = handle\<rparr>]))"

definition transformToContactInfo :: "ContactHandleRow list \<Rightarrow> ContactInfo list" where
  "transformToContactInfo rows = transformRows rows {} []"

subsection \<open>buildWhereClause\<close>

record WhereClause =
  wc_whereClause :: string
  wc_params :: "string list"

text \<open>The three predicate texts, character by character as the source writes them.\<close>

definition anyNameClause :: string where
  "anyNameClause =
     ''(r.ZFIRSTNAME IS NOT NULL OR r.ZLASTNAME IS NOT NULL OR r.ZORGANIZATION IS NOT NULL)''"

definition bothNamesClause :: string where
  "bothNamesClause =
     js_join [CHR 0x0A]
       ['''',
        ''        (r.ZFIRSTNAME LIKE ? AND r.ZLASTNAME LIKE ?)'',
        ''        AND (r.ZFIRSTNAME IS NOT NULL OR r.ZLASTNAME IS NOT NULL OR r.ZORGANIZATION IS NOT NULL)'',
        ''      '']"

definition anyFieldClause :: string where
  "anyFieldClause =
     js_join [CHR 0x0A]
       ['''',
        ''      (r.ZFIRSTNAME LIKE ? OR r.ZLASTNAME LIKE ? OR r.ZORGANIZATION LIKE ? OR r.ZNICKNAME LIKE ?)'',
        ''      AND (r.ZFIRSTNAME IS NOT NULL OR r.ZLASTNAME IS NOT NULL OR r.ZORGANIZATION IS NOT NULL)'',
        ''    '']"

text \<open>
  \<open>!lastName\<close> and \<open>if (lastName)\<close> test truthiness: an empty last name takes the same
  branches as an absent one.
\<close>

definition buildWhereClause :: "string \<Rightarrow> string option \<Rightarrow> WhereClause" where
  "buildWhereClause firstName lastName =
     (if firstName = [] \<and> \<not> truthy lastName
      then \<lparr>wc_whereClause = anyNameClause, wc_params = []\<rparr>
      else case lastName of
        Some l \<Rightarrow>
          if l \<noteq> []
          then let firstNamePattern = ''%'' @ firstName @ ''%'';
                   lastNamePattern = ''%'' @ l @ ''%''
               in \<lparr>wc_whereClause = bothNamesClause,
                   wc_params = [firstNamePattern, lastNamePattern]\<rparr>
          else let searchPattern = ''%'' @ firstName @ ''%''
               in \<lparr>wc_whereClause = anyFieldClause,
                   wc_params = [searchPattern, searchPattern, searchPattern, searchPattern]\<rparr>
      | None \<Rightarrow>
          let searchPattern = ''%'' @ firstName @ ''%''
          in \<lparr>wc_whereClause = anyFieldClause,
              wc_params = [searchPattern, searchPattern, searchPattern, searchPattern]\<rparr>)"

subsection \<open>The databases and the two queries\<close>

datatype sql_value = SqlText string | SqlNumber int

datatype error = QueryError string

text \<open>
  A \<open>Database\<close> answers a prepared statement run on parameters: \<open>prepare_get\<close> is
  \<open>db.prepare(q).get(...ps)\<close> read at its field \<open>total\<close>, \<open>prepare_all\<close> is
  \<open>db.prepare(q).all(...ps)\<close>. \<open>Inl\<close> is a thrown error.
\<close>

record Database =
  prepare_get :: "string \<Rightarrow> sql_value list \<Rightarrow> error + int"
  prepare_all :: "string \<Rightarrow> sql_value list \<Rightarrow> error + ContactHandleRow list"

definition countQuery :: "string \<Rightarrow> string" where
  "countQuery whereClause =
     js_join [CHR 0x0A]
       ['''',
        ''    SELECT COUNT(*) as total FROM ('',
        ''      SELECT 1'',
        ''      FROM ZABCDRECORD r'',
        ''      INNER JOIN ZABCDPHONENUMBER p ON p.ZOWNER = r.Z_PK'',
        ''      WHERE '' @ whereClause,
        ''      AND p.ZFULLNUMBER IS NOT NULL'',
        '''',
        ''      UNION ALL'',
        '''',
        ''      SELECT 1'',
        ''      FROM ZABCDRECORD r'',
        ''      INNER JOIN ZABCDEMAILADDRESS e ON e.ZOWNER = r.Z_PK'',
        ''      WHERE '' @ whereClause,
        ''      AND e.ZADDRESS IS NOT NULL'',
        ''    )'',
        ''  '']"

definition countContactHandles :: "Database \<Rightarrow> string \<Rightarrow> string option \<Rightarrow> error + int" where
  "countContactHandles db firstName lastName =
     (let w = buildWhereClause firstName lastName;
          allParams = map SqlText (wc_params w @ wc_params w)
      in prepare_get db (countQuery (wc_whereClause w)) allParams)"

definition dataQuery :: "string \<Rightarrow> string" where
  "dataQuery whereClause =
     js_join [CHR 0x0A]
       ['''',
        ''    SELECT'',
        ''      r.ZFIRSTNAME as firstName,'',
        ''      r.ZLASTNAME as lastName,'',
        ''      r.ZORGANIZATION as organization,'',
        ''      p.ZFULLNUMBER as handle,'',
        ''      '' @ [CHR 0x27] @ ''phone'' @ [CHR 0x27] @ '' as handle_type'',
        ''    FROM ZABCDRECORD r'',
        ''    INNER JOIN ZABCDPHONENUMBER p ON p.ZOWNER = r.Z_PK'',
        ''    WHERE '' @ whereClause,
        ''    AND p.ZFULLNUMBER IS NOT NULL'',
        '''',
        ''    UNION ALL'',
        '''',
        ''    SELECT'',
        ''      r.ZFIRSTNAME as firstName,'',
        ''      r.ZLASTNAME as lastName,'',
        ''      r.ZORGANIZATION as organization,'',
        ''      e.ZADDRESS as handle,'',
        ''      '' @ [CHR 0x27] @ ''email'' @ [CHR 0x27] @ '' as handle_type'',
        ''    FROM ZABCDRECORD r'',
        ''    INNER JOIN ZABCDEMAILADDRESS e ON e.ZOWNER = r.Z_PK'',
        ''    WHERE '' @ whereClause,
        ''    AND e.ZADDRESS IS NOT NULL'',
        '''',
        ''    ORDER BY lastName, firstName, handle'',
        ''    LIMIT ? OFFSET ?'',
        ''  '']"

definition fetchContactHandles ::
  "Database \<Rightarrow> string \<Rightarrow> string option \<Rightarrow> int \<Rightarrow> int \<Rightarrow> error + ContactHandleRow list" where
  "fetchContactHandles db firstName lastName limit offset =
     (let w = buildWhereClause firstName lastName;
          allParams = map SqlText (wc_params w @ wc_params w) @ [SqlNumber limit, SqlNumber offset]
      in prepare_all db (dataQuery (wc_whereClause w)) allParams)"

subsection \<open>searchContactHandlesAcrossDatabases\<close>

text \<open>
  What happened at one database, in the order of the databases: the two \<open>continue\<close>
  branches, a fetch with its arguments and the number of rows it returned, and the two
  places where the \<open>catch\<close> clause is entered (it logs the error and goes on).
\<close>

datatype source_event =
    OffsetSkipped
  | PageFull
  | Fetched int int nat
  | CountFailed error
  | FetchFailed int int error

text \<open>The variables of the loop, and the log of events.\<close>

record SearchState =
  totalAcrossDbs :: int
  remainingOffset :: int
  remainingLimit :: int
  results :: "ContactHandleRow list"
  events :: "source_event list"

text \<open>
  The body of \<open>for (const db of databases)\<close>. An error thrown by the count leaves the
  state as it was; an error thrown by the fetch comes after \<open>totalAcrossDbs += dbCount\<close>
  and before the three updates that follow the fetch.
\<close>

definition visitDatabase :: "string \<Rightarrow> string option \<Rightarrow> Database \<Rightarrow> SearchState \<Rightarrow> SearchState" where
  "visitDatabase firstName lastName db s =
     (case countContactHandles db firstName lastName of
        Inl e \<Rightarrow> s\<lparr>events := events s @ [CountFailed e]\<rparr>
      | Inr dbCount \<Rightarrow>
          let s1 = s\<lparr>totalAcrossDbs := totalAcrossDbs s + dbCount\<rparr>
          in if remainingOffset s1 \<ge> dbCount
             then s1\<lparr>remainingOffset := remainingOffset s1 - dbCount,
                     events := events s1 @ [OffsetSkipped]\<rparr>
             else if remainingLimit s1 \<le> 0
             then s1\<lparr>events := events s1 @ [PageFull]\<rparr>
             else case fetchContactHandles db firstName lastName
                         (remainingLimit s1) (remainingOffset s1) of
                    Inl e \<Rightarrow>
                      s1\<lparr>events := events s1
                            @ [FetchFailed (remainingLimit s1) (remainingOffset s1) e]\<rparr>
                  | Inr rows \<Rightarrow>
                      s1\<lparr>results := results s1 @ rows,
                         remainingOffset := 0,
                         remainingLimit := remainingLimit s1 - int (length rows),
                         events := events s1
                            @ [Fetched (remainingLimit s1) (remainingOffset s1) (length rows)]\<rparr>)"

fun visitDatabases :: "string \<Rightarrow> string option \<Rightarrow> Database list \<Rightarrow> SearchState \<Rightarrow> SearchState" where
  "visitDatabases firstName lastName [] s = s"
| "visitDatabases firstName lastName (db # databases) s =
     visitDatabases firstName lastName databases (visitDatabase firstName lastName db s)"

definition initialState :: "int \<Rightarrow> int \<Rightarrow> SearchState" where
  "initialState limit offset =
     \<lparr>totalAcrossDbs = 0, remainingOffset = offset, remainingLimit = limit,
      results = [], events = []\<rparr>"

definition searchRun ::
  "Database list \<Rightarrow> string \<Rightarrow> string option \<Rightarrow> int \<Rightarrow> int \<Rightarrow> SearchState" where
  "searchRun databases firstName lastName limit offset =
     visitDatabases firstName lastName databases (initialState limit offset)"

text \<open>The returned object \<open>{ rows: results, total: totalAcrossDbs }\<close>, as a pair.\<close>

definition searchContactHandlesAcrossDatabases ::
  "Database list \<Rightarrow> string \<Rightarrow> string option \<Rightarrow> int \<Rightarrow> int \<Rightarrow> ContactHandleRow list \<times> int" where
  "searchContactHandlesAcrossDatabases databases firstName lastName limit offset =
     (let s = searchRun databases firstName lastName limit offset
      in (results s, totalAcrossDbs s))"

subsection \<open>searchContactsByName\<close>

text \<open>
  An integer-valued JavaScript number: a finite double that is an integer, an infinity
  or NaN.
\<close>

datatype js_number = Finite int | PosInfinity | NegInfinity | NaN

text \<open>
  IEEE 754 binary64, round to nearest, ties to even. \<open>round_half_even x y\<close> is the
  integer nearest to \<open>x / y\<close> for \<open>y > 0\<close>; \<open>binade a b\<close> is the exponent \<open>e\<close> with
  \<open>2^e \<le> a / b < 2^(e+1)\<close> for positive \<open>a\<close>, \<open>b\<close>. \<open>nearest_double a b\<close> is the double
  nearest to \<open>a / b\<close> for \<open>b > 0\<close>, as a pair \<open>(m, k)\<close> that stands for \<open>m * 2^k\<close>: the
  mantissa has 53 bits, so the unit in the last place is \<open>2^(e - 52)\<close>, and the exponent
  is not below \<open>-1022\<close> (subnormal numbers).
\<close>

definition round_half_even :: "int \<Rightarrow> int \<Rightarrow> int" where
  "round_half_even x y =
     (let q = x div y; r = x mod y
      in if 2 * r < y then q else if y < 2 * r then q + 1 else if even q then q else q + 1)"

definition binade :: "int \<Rightarrow> int \<Rightarrow> int" where
  "binade a b =
     (let d = bitlen a - bitlen b
      in if (if 0 \<le> d then b * 2 ^ nat d \<le> a else b \<le> a * 2 ^ nat (- d)) then d else d - 1)"

definition nearest_double :: "int \<Rightarrow> int \<Rightarrow> int \<times> int" where
  "nearest_double a b =
     (if a = 0 then (0, 0)
      else let e = max (binade \<bar>a\<bar> b) (- 1022); k = e - 52
           in (if 0 \<le> k then round_half_even a (b * 2 ^ nat k)
               else round_half_even (a * 2 ^ nat (- k)) b, k))"

text \<open>
  \<open>Math.floor\<close> and \<open>Math.ceil\<close> of the double \<open>m * 2^k\<close>. A rounded magnitude of
  \<open>2^1024\<close> or more is an infinity.
\<close>

definition double_floor :: "int \<times> int \<Rightarrow> js_number" where
  "double_floor d =
     (case d of (m, k) \<Rightarrow>
        let w = (if 0 \<le> k then m * 2 ^ nat k else m div 2 ^ nat (- k))
        in if 2 ^ 1024 \<le> \<bar>w\<bar> then (if 0 < w then PosInfinity else NegInfinity) else Finite w)"

definition double_ceil :: "int \<times> int \<Rightarrow> js_number" where
  "double_ceil d =
     (case d of (m, k) \<Rightarrow>
        let w = (if 0 \<le> k then m * 2 ^ nat k else - ((- m) div 2 ^ nat (- k)))
        in if 2 ^ 1024 \<le> \<bar>w\<bar> then (if 0 < w then PosInfinity else NegInfinity) else Finite w)"

text \<open>The double \<open>a / b\<close> for \<open>b \<noteq> 0\<close>: the sign of the divisor moves to the dividend.\<close>

definition js_quot :: "int \<Rightarrow> int \<Rightarrow> int \<times> int" where
  "js_quot a b = (if b < 0 then nearest_double (- a) (- b) else nearest_double a b)"

text \<open>\<open>Math.floor(a / b)\<close> on integers \<open>a\<close>, \<open>b\<close>; \<open>a / 0\<close> is an infinity, or NaN when \<open>a = 0\<close>.\<close>

definition js_floor_quot :: "int \<Rightarrow> int \<Rightarrow> js_number" where
  "js_floor_quot a b =
     (if b \<noteq> 0 then double_floor (js_quot a b)
      else if a > 0 then PosInfinity else if a < 0 then NegInfinity else NaN)"

text \<open>\<open>Math.ceil(a / b)\<close> on integers, evaluated by the source under \<open>b > 0\<close> only.\<close>

definition js_ceil_quot :: "int \<Rightarrow> int \<Rightarrow> js_number" where
  "js_ceil_quot a b =
     (if b \<noteq> 0 then double_ceil (js_quot a b)
      else if a > 0 then PosInfinity else if a < 0 then NegInfinity else NaN)"

text \<open>The double nearest to an integer: the result of a sum of two integer-valued doubles.\<close>

definition js_round :: "int \<Rightarrow> js_number" where
  "js_round n = double_floor (nearest_double n 1)"

fun js_plus :: "js_number \<Rightarrow> int \<Rightarrow> js_number" where
  "js_plus (Finite a) b = js_round (a + b)"
| "js_plus PosInfinity b = PosInfinity"
| "js_plus NegInfinity b = NegInfinity"
| "js_plus NaN b = NaN"

text \<open>The comparison \<open>x < t\<close> of a number with an integer.\<close>

fun js_less :: "js_number \<Rightarrow> int \<Rightarrow> bool" where
  "js_less (Finite a) t = (a < t)"
| "js_less PosInfinity t = False"
| "js_less NegInfinity t = True"
| "js_less NaN t = False"

record Pagination =
  page_total :: int
  page_limit :: int
  page_offset :: int
  page_hasMore :: bool
  page_page :: js_number
  page_totalPages :: js_number

record PaginatedResult =
  data :: "ContactInfo list"
  pagination :: Pagination

text \<open>
  \<open>limit = 50\<close> and \<open>offset = 0\<close> are default parameters: \<open>None\<close> is an omitted
  argument. Nothing inside the \<open>try\<close> block throws in this model (the aggregation
  catches the errors of the queries), so the \<open>catch\<close> clause, which rethrows as
  \<open>Failed to search contacts: ...\<close>, has no branch here and the result is always \<open>Inr\<close>.
\<close>

definition searchContactsByName ::
  "Database list \<Rightarrow> string \<Rightarrow> string option \<Rightarrow> int option \<Rightarrow> int option \<Rightarrow> error + PaginatedResult" where
  "searchContactsByName contactsDatabases firstName lastName limit_arg offset_arg =
     (let limit = (case limit_arg of None \<Rightarrow> 50 | Some l \<Rightarrow> l);
          offset = (case offset_arg of None \<Rightarrow> 0 | Some k \<Rightarrow> k);
          (rows, total) =
            searchContactHandlesAcrossDatabases contactsDatabases firstName lastName limit offset;
          contacts = transformToContactInfo rows;
          hasMore = js_less (js_round (offset + limit)) total;
          page = js_plus (js_floor_quot offset limit) 1;
          totalPages = (if limit > 0 then js_ceil_quot total limit else Finite 0)
      in Inr \<lparr>data = contacts,
              pagination = \<lparr>page_total = total, page_limit = limit, page_offset = offset,
                            page_hasMore = hasMore, page_page = page,
                            page_totalPages = totalPages\<rparr>\<rparr>)"

subsection \<open>The queries of a well-behaved database\<close>

text \<open>
  SQLite's \<open>LIMIT l OFFSET k\<close> on an ordered list of matching rows: a negative offset is
  no offset, a negative limit is no limit.
\<close>

definition sqlite_limit_offset :: "int \<Rightarrow> int \<Rightarrow> 'a list \<Rightarrow> 'a list" where
  "sqlite_limit_offset l k xs =
     (let ys = drop (nat k) xs in if l < 0 then ys else take (nat l) ys)"

text \<open>
  \<open>answers db firstName lastName ms\<close>: for this search the database holds the matching
  rows \<open>ms\<close>, in the order of the query's \<open>ORDER BY\<close>: the count query returns their
  number and the data query returns the slice asked for.
\<close>

definition answers :: "Database \<Rightarrow> string \<Rightarrow> string option \<Rightarrow> ContactHandleRow list \<Rightarrow> bool" where
  "answers db firstName lastName ms \<longleftrightarrow>
     countContactHandles db firstName lastName = Inr (int (length ms)) \<and>
     (\<forall>l k. fetchContactHandles db firstName lastName l k = Inr (sqlite_limit_offset l k ms))"

text \<open>
  A database over a fixed list of matching rows whose queries never fail; it reads the
  limit and the offset from the last two parameters of the data query.
\<close>

definition tableDatabase :: "ContactHandleRow list \<Rightarrow> Database" where
  "tableDatabase ms =
     \<lparr>prepare_get = (\<lambda>q ps. Inr (int (length ms))),
      prepare_all = (\<lambda>q ps.
        case rev ps of
          SqlNumber k # SqlNumber l # _ \<Rightarrow> Inr (sqlite_limit_offset l k ms)
        | _ \<Rightarrow> Inl (QueryError ''bad parameters''))\<rparr>"

text \<open>A database whose data query always throws, after a count of \<open>n\<close>.\<close>

definition fetchFailingDatabase :: "int \<Rightarrow> Database" where
  "fetchFailingDatabase n =
     \<lparr>prepare_get = (\<lambda>q ps. Inr n),
      prepare_all = (\<lambda>q ps. Inl (QueryError ''disk I/O error''))\<rparr>"

text \<open>A database whose count query throws.\<close>

definition countFailingDatabase :: Database where
  "countFailingDatabase =
     \<lparr>prepare_get = (\<lambda>q ps. Inl (QueryError ''no such table: ZABCDRECORD'')),
      prepare_all = (\<lambda>q ps. Inr [])\<rparr>"

text \<open>An email row of an organisation without first and last name, for the examples.\<close>

definition emailRow :: "string \<Rightarrow> string \<Rightarrow> ContactHandleRow" where
  "emailRow org address =
     \<lparr>row_firstName = None, row_lastName = None, row_organization = Some org,
      row_handle = address, row_handle_type = email_kind\<rparr>"

subsection \<open>The predicate shapes as the specification words them\<close>

text \<open>
  "lastName absent" read as \<open>undefined\<close> and "lastName present" as any string, the
  empty one included.
\<close>

definition spec_buildWhereClause :: "string \<Rightarrow> string option \<Rightarrow> WhereClause" where
  "spec_buildWhereClause firstName lastName =
     (if firstName = [] \<and> lastName = None
      then \<lparr>wc_whereClause = anyNameClause, wc_params = []\<rparr>
      else case lastName of
        Some l \<Rightarrow> \<lparr>wc_whereClause = bothNamesClause,
                   wc_params = [''%'' @ firstName @ ''%'', ''%'' @ l @ ''%'']\<rparr>
      | None \<Rightarrow> \<lparr>wc_whereClause = anyFieldClause,
                 wc_params = replicate 4 (''%'' @ firstName @ ''%'')\<rparr>)"

subsection \<open>Notions used in the statements about failing queries and deduplication\<close>

text \<open>
  The events that record a data query that threw.
\<close>

fun isFetchFailed :: "source_event \<Rightarrow> bool" where
  "isFetchFailed (FetchFailed lm k e) = True"
| "isFetchFailed _ = False"

text \<open>
  A database whose count, when it succeeds, is not negative and bounds the number of
  rows that any successful data query returns, as a \<open>COUNT(*)\<close> over the same rows does.
\<close>

definition fetches_within_count :: "Database \<Rightarrow> string \<Rightarrow> string option \<Rightarrow> bool" where
  "fetches_within_count db f l \<longleftrightarrow>
     (\<forall>c. countContactHandles db f l = Inr c \<longrightarrow>
        0 \<le> c \<and>
        (\<forall>lm k rows. fetchContactHandles db f l lm k = Inr rows \<longrightarrow> int (length rows) \<le> c))"

text \<open>
  The part of the loop state that decides what the loop does next: the running total
  and the log are written and never read.
\<close>

definition core :: "SearchState \<Rightarrow> int \<times> int \<times> ContactHandleRow list" where
  "core s = (remainingOffset s, remainingLimit s, results s)"

text \<open>
  The number of failed fetches logged so far, and the accounting invariant of the
  loop: the rows collected plus the failed fetches are covered by the total.
\<close>

definition failures :: "SearchState \<Rightarrow> nat" where
  "failures s = length (filter isFetchFailed (events s))"

definition accounted :: "SearchState \<Rightarrow> bool" where
  "accounted s \<longleftrightarrow> 0 \<le> remainingOffset s \<and>
     int (length (results s)) + int (failures s) \<le> totalAcrossDbs s"

text \<open>
  The deduplication key of an output entry.
\<close>

definition entryKey :: "ContactInfo \<Rightarrow> string" where
  "entryKey c = dedupKey (info_name c) (info_phone c)"

section \<open>Properties\<close>

subsection \<open>Phone normalisation\<close>

lemma cleaned_idem: "cleaned (cleaned p) = cleaned p"
  by (simp add: cleaned_def)

lemma cleaned_append: "cleaned (xs @ ys) = cleaned xs @ cleaned ys"
  by (simp add: cleaned_def)

lemma cleaned_plus: "cleaned ''+'' = ''+''"
  and cleaned_plus_one: "cleaned ''+1'' = ''+1''"
  by (simp_all add: cleaned_def is_digit_def)

lemma cleaned_filter: "cleaned p = filter (\<lambda>c. c \<in> set ''0123456789+'') p"
  unfolding cleaned_def is_digit_def by (rule filter_cong) auto

lemma spec_strip_False: "spec_strip False p = filter is_digit p"
  by (induction p) auto

lemma spec_strip_True:
  "CHR ''+'' \<notin> set (tl (cleaned p)) \<Longrightarrow> spec_strip True p = cleaned p"
proof (induction p)
  case Nil
  then show ?case by (simp add: cleaned_def)
next
  case (Cons a p)
  show ?case
  proof (cases "is_digit a \<or> a = CHR ''+''")
    case True
    then have "cleaned (a # p) = a # cleaned p" by (auto simp: cleaned_def)
    with Cons.prems have np: "CHR ''+'' \<notin> set (cleaned p)" by simp
    then have "cleaned p = filter is_digit p"
      unfolding cleaned_def by (induction p) (auto split: if_splits)
    with True show ?thesis by (auto simp: spec_strip_False cleaned_def)
  next
    case False
    then have "cleaned (a # p) = cleaned p" by (auto simp: cleaned_def)
    with Cons False show ?thesis by auto
  qed
qed

lemma all_digits_cleaned:
  assumes "CHR ''+'' \<notin> set (tl (cleaned p))" "\<not> startsWith (cleaned p) ''+''"
  shows "list_all is_digit (cleaned p)"
proof (cases "cleaned p")
  case Nil
  then show ?thesis by simp
next
  case (Cons a cs)
  have "\<forall>c \<in> set (cleaned p). is_digit c \<or> c = CHR ''+''" by (auto simp: cleaned_def)
  with assms Cons show ?thesis
    by (auto simp: startsWith_def list_all_iff)
qed

lemma normalize_agrees_with_spec:
  assumes "CHR ''+'' \<notin> set (tl (cleaned p))"
  shows "normalizePhoneNumber p = spec_normalizePhoneNumber p"
  using spec_strip_True[OF assms] all_digits_cleaned[OF assms]
  by (auto simp: normalizePhoneNumber_def spec_normalizePhoneNumber_def Let_def)

lemma normalize_examples:
  "normalizePhoneNumber ''555-123-4567'' = ''+15551234567''"
  "normalizePhoneNumber ''15551234567'' = ''+15551234567''"
  "normalizePhoneNumber ''+44 20 7946 0958'' = ''+442079460958''"
  by (simp_all add: normalizePhoneNumber_def cleaned_def is_digit_def startsWith_def)

text \<open>
  C4, as the claim states it, fails: the cleaning keeps every plus sign, not only a
  leading one, and the tests "exactly 10 digits" and "exactly 11 digits" are tests of the
  length of the cleaned string. On \<open>555+1234\<close> the code returns the input with its plus
  sign, where stripping all but a leading plus gives \<open>5551234\<close>.
\<close>

theorem normalizePhoneNumber_interior_plus:
  "normalizePhoneNumber ''555+1234'' = ''555+1234'' \<and>
   spec_normalizePhoneNumber ''555+1234'' = ''5551234''"
  by (simp add: normalizePhoneNumber_def spec_normalizePhoneNumber_def cleaned_def
      is_digit_def startsWith_def)

text \<open>
  C4, amended: for every input string, phone normalisation deletes every character
  except digits and plus signs (at any position); it returns the cleaned string unchanged
  if it starts with a plus; prefixes \<open>+1\<close> if the cleaned string has exactly 10 characters;
  prefixes \<open>+\<close> if it has exactly 11 characters and starts with \<open>1\<close>; otherwise returns the
  cleaned string, or the original input if the cleaned string is empty. Where no plus
  sign follows the first kept character this is the normalisation of the specification
  (digits and a leading plus). The three examples hold.
\<close>

theorem normalizePhoneNumber_cases:
  "cleaned p = filter (\<lambda>c. c \<in> set ''0123456789+'') p \<and>
   (startsWith (cleaned p1) ''+'' \<longrightarrow> normalizePhoneNumber p1 = cleaned p1) \<and>
   (\<not> startsWith (cleaned p2) ''+'' \<and> length (cleaned p2) = 10
      \<longrightarrow> normalizePhoneNumber p2 = ''+1'' @ cleaned p2) \<and>
   (length (cleaned p3) = 11 \<and> startsWith (cleaned p3) ''1''
      \<longrightarrow> normalizePhoneNumber p3 = ''+'' @ cleaned p3) \<and>
   (\<not> startsWith (cleaned p4) ''+'' \<and> length (cleaned p4) \<noteq> 10 \<and>
    \<not> (length (cleaned p4) = 11 \<and> startsWith (cleaned p4) ''1'') \<and> cleaned p4 \<noteq> []
      \<longrightarrow> normalizePhoneNumber p4 = cleaned p4) \<and>
   (cleaned p5 = [] \<longrightarrow> normalizePhoneNumber p5 = p5) \<and>
   (CHR ''+'' \<notin> set (tl (cleaned p6))
      \<longrightarrow> normalizePhoneNumber p6 = spec_normalizePhoneNumber p6) \<and>
   normalizePhoneNumber ''555-123-4567'' = ''+15551234567'' \<and>
   normalizePhoneNumber ''15551234567'' = ''+15551234567'' \<and>
   normalizePhoneNumber ''+44 20 7946 0958'' = ''+442079460958''"
proof -
  have c1: "startsWith (cleaned p1) ''+'' \<longrightarrow> normalizePhoneNumber p1 = cleaned p1"
    by (simp add: normalizePhoneNumber_def)
  have c2: "\<not> startsWith (cleaned p2) ''+'' \<and> length (cleaned p2) = 10
      \<longrightarrow> normalizePhoneNumber p2 = ''+1'' @ cleaned p2"
    by (simp add: normalizePhoneNumber_def)
  have c3: "length (cleaned p3) = 11 \<and> startsWith (cleaned p3) ''1''
      \<longrightarrow> normalizePhoneNumber p3 = ''+'' @ cleaned p3"
    by (auto simp: normalizePhoneNumber_def startsWith_def)
  have c4: "\<not> startsWith (cleaned p4) ''+'' \<and> length (cleaned p4) \<noteq> 10 \<and>
    \<not> (length (cleaned p4) = 11 \<and> startsWith (cleaned p4) ''1'') \<and> cleaned p4 \<noteq> []
      \<longrightarrow> normalizePhoneNumber p4 = cleaned p4"
    by (auto simp: normalizePhoneNumber_def Let_def)
  have c5: "cleaned p5 = [] \<longrightarrow> normalizePhoneNumber p5 = p5"
    by (simp add: normalizePhoneNumber_def startsWith_def)
  have c6: "CHR ''+'' \<notin> set (tl (cleaned p6))
      \<longrightarrow> normalizePhoneNumber p6 = spec_normalizePhoneNumber p6"
    using normalize_agrees_with_spec by blast
  from cleaned_filter c1 c2 c3 c4 c5 c6 normalize_examples show ?thesis by blast
qed

theorem normalizePhoneNumber_cases_witness:
  "normalizePhoneNumber ''+44 (0)20 7946'' = ''+440207946'' \<and>
   normalizePhoneNumber ''(555) 123-4567'' = ''+15551234567'' \<and>
   normalizePhoneNumber ''1-555-123-4567'' = ''+15551234567'' \<and>
   normalizePhoneNumber ''911'' = ''911'' \<and>
   normalizePhoneNumber ''n/a'' = ''n/a'' \<and>
   spec_normalizePhoneNumber ''(555) 123-4567'' = ''+15551234567''"
  using normalizePhoneNumber_cases [of "''''" "''+44 (0)20 7946''" "''(555) 123-4567''"
      "''1-555-123-4567''" "''911''" "''n/a''" "''(555) 123-4567''"]
  by (simp add: cleaned_def is_digit_def startsWith_def spec_normalizePhoneNumber_def)

text \<open>
  C10: phone normalisation is idempotent: normalising a normalised handle returns it
  unchanged.
\<close>

theorem normalizePhoneNumber_idempotent:
  "normalizePhoneNumber (normalizePhoneNumber p) = normalizePhoneNumber p"
proof -
  let ?c = "cleaned p"
  consider (plus) "startsWith ?c ''+''"
    | (ten) "\<not> startsWith ?c ''+''" "length ?c = 10"
    | (eleven) "\<not> startsWith ?c ''+''" "length ?c \<noteq> 10" "length ?c = 11" "startsWith ?c ''1''"
    | (other) "\<not> startsWith ?c ''+''" "length ?c \<noteq> 10"
        "\<not> (length ?c = 11 \<and> startsWith ?c ''1'')" "?c \<noteq> []"
    | (empty) "?c = []"
    by (cases "?c = []") (auto simp: startsWith_def)
  then show ?thesis
  proof cases
    case plus
    then have "normalizePhoneNumber p = ?c" by (simp add: normalizePhoneNumber_def)
    moreover have "normalizePhoneNumber ?c = ?c"
      using plus by (simp add: normalizePhoneNumber_def cleaned_idem)
    ultimately show ?thesis by simp
  next
    case ten
    then have "normalizePhoneNumber p = ''+1'' @ ?c" by (simp add: normalizePhoneNumber_def)
    moreover have "cleaned (''+1'' @ ?c) = ''+1'' @ ?c"
      by (simp only: cleaned_append cleaned_idem cleaned_plus_one)
    then have "normalizePhoneNumber (''+1'' @ ?c) = ''+1'' @ ?c"
      by (simp add: normalizePhoneNumber_def startsWith_def)
    ultimately show ?thesis by simp
  next
    case eleven
    then have "normalizePhoneNumber p = ''+'' @ ?c" by (simp add: normalizePhoneNumber_def)
    moreover have "cleaned (''+'' @ ?c) = ''+'' @ ?c"
      by (simp only: cleaned_append cleaned_idem cleaned_plus)
    then have "normalizePhoneNumber (''+'' @ ?c) = ''+'' @ ?c"
      by (simp add: normalizePhoneNumber_def startsWith_def)
    ultimately show ?thesis by simp
  next
    case other
    then have "normalizePhoneNumber p = ?c" by (auto simp: normalizePhoneNumber_def Let_def)
    moreover have "normalizePhoneNumber ?c = ?c"
      using other by (auto simp: normalizePhoneNumber_def cleaned_idem Let_def)
    ultimately show ?thesis by simp
  next
    case empty
    then have "normalizePhoneNumber p = p"
      by (simp add: normalizePhoneNumber_def startsWith_def)
    then show ?thesis by simp
  qed
qed

subsection \<open>Name derivation\<close>

lemma not_truthy: "\<not> truthy x \<Longrightarrow> x = None \<or> x = Some []"
  by (cases x) auto

text \<open>
  C6, as the claim states it, fails: the code tests truthiness, so a first or last name
  that is the empty string is non-null and yet not joined. With first name \<open>""\<close> and
  last name \<open>Doe\<close> the code returns \<open>Doe\<close>; joining the two non-null names with a space
  gives \<open>" Doe"\<close>.
\<close>

theorem buildFullName_empty_first_name:
  "buildFullName (Some '''') (Some ''Doe'') None = ''Doe'' \<and>
   spec_buildFullName (Some '''') (Some ''Doe'') None = '' Doe''"
  by (simp add: buildFullName_def spec_buildFullName_def)

text \<open>
  C6, amended: for every row, name derivation joins the first and the last name that
  are non-null and non-empty with a single space in that order; if neither is such, it
  falls back to the organisation if that is non-null and non-empty; otherwise it returns
  \<open>Unknown\<close>. The three examples hold.
\<close>

theorem buildFullName_cases:
  "(f1 \<noteq> [] \<and> l1 \<noteq> [] \<longrightarrow> buildFullName (Some f1) (Some l1) o1 = f1 @ '' '' @ l1) \<and>
   (f2 \<noteq> [] \<and> \<not> truthy ln2 \<longrightarrow> buildFullName (Some f2) ln2 o2 = f2) \<and>
   (\<not> truthy fn3 \<and> l3 \<noteq> [] \<longrightarrow> buildFullName fn3 (Some l3) o3 = l3) \<and>
   (\<not> truthy fn4 \<and> \<not> truthy ln4 \<and> g4 \<noteq> [] \<longrightarrow> buildFullName fn4 ln4 (Some g4) = g4) \<and>
   (\<not> truthy fn5 \<and> \<not> truthy ln5 \<and> \<not> truthy o5 \<longrightarrow> buildFullName fn5 ln5 o5 = ''Unknown'') \<and>
   buildFullName None None None = ''Unknown'' \<and>
   buildFullName None None (Some ''Acme Corp'') = ''Acme Corp'' \<and>
   buildFullName (Some ''Jane'') (Some ''Doe'') None = ''Jane Doe''"
proof -
  have a: "f1 \<noteq> [] \<and> l1 \<noteq> [] \<longrightarrow> buildFullName (Some f1) (Some l1) o1 = f1 @ '' '' @ l1"
    by (cases o1) (auto simp: buildFullName_def)
  have b: "f2 \<noteq> [] \<and> \<not> truthy ln2 \<longrightarrow> buildFullName (Some f2) ln2 o2 = f2"
    by (cases o2) (auto simp: buildFullName_def dest!: not_truthy)
  have c: "\<not> truthy fn3 \<and> l3 \<noteq> [] \<longrightarrow> buildFullName fn3 (Some l3) o3 = l3"
    by (cases o3) (auto simp: buildFullName_def dest!: not_truthy)
  have d: "\<not> truthy fn4 \<and> \<not> truthy ln4 \<and> g4 \<noteq> [] \<longrightarrow> buildFullName fn4 ln4 (Some g4) = g4"
    by (auto simp: buildFullName_def dest!: not_truthy)
  have e: "\<not> truthy fn5 \<and> \<not> truthy ln5 \<and> \<not> truthy o5 \<longrightarrow> buildFullName fn5 ln5 o5 = ''Unknown''"
    by (auto simp: buildFullName_def dest!: not_truthy)
  have f: "buildFullName None None None = ''Unknown''"
    "buildFullName None None (Some ''Acme Corp'') = ''Acme Corp''"
    "buildFullName (Some ''Jane'') (Some ''Doe'') None = ''Jane Doe''"
    by (simp_all add: buildFullName_def)
  from a b c d e f show ?thesis by blast
qed

theorem buildFullName_cases_witness:
  "buildFullName (Some ''Jane'') (Some ''Doe'') (Some ''Acme Corp'') = ''Jane Doe'' \<and>
   buildFullName (Some ''Jane'') (Some '''') None = ''Jane'' \<and>
   buildFullName None (Some ''Doe'') None = ''Doe'' \<and>
   buildFullName (Some '''') None (Some ''Acme Corp'') = ''Acme Corp'' \<and>
   buildFullName None (Some '''') (Some '''') = ''Unknown''"
  using buildFullName_cases [of "''Jane''" "''Doe''" "Some ''Acme Corp''" "''Jane''" "Some ''''" None
      None "''Doe''" None "Some ''''" None "''Acme Corp''" None "Some ''''" "Some ''''"]
  by simp

subsection \<open>The predicate builder\<close>

lemma placeholders:
  "count_list anyNameClause (CHR ''?'') = 0"
  "count_list bothNamesClause (CHR ''?'') = 2"
  "count_list anyFieldClause (CHR ''?'') = 4"
  by (simp_all add: anyNameClause_def bothNamesClause_def anyFieldClause_def)

text \<open>
  C7, as the claim states it, fails: the code tests the truthiness of \<open>lastName\<close>, so a
  last name that is present and empty is treated as absent. With first name \<open>Jo\<close> and
  last name \<open>""\<close> the code builds the disjunction with four parameters, not the
  conjunction with the two parameters \<open>%Jo%\<close> and \<open>%%\<close>.
\<close>

theorem buildWhereClause_empty_last_name:
  "buildWhereClause ''Jo'' (Some '''') =
     \<lparr>wc_whereClause = anyFieldClause, wc_params = [''%Jo%'', ''%Jo%'', ''%Jo%'', ''%Jo%'']\<rparr> \<and>
   spec_buildWhereClause ''Jo'' (Some '''') =
     \<lparr>wc_whereClause = bothNamesClause, wc_params = [''%Jo%'', ''%%'']\<rparr>"
  by (simp add: buildWhereClause_def spec_buildWhereClause_def Let_def)

text \<open>
  C7, amended: for every (firstName, lastName) the predicate builder produces exactly
  one of three shapes: if firstName is empty and lastName is absent or empty, the
  any-non-null-name-field predicate with zero parameters; if lastName is present and
  non-empty, the conjunction of the two substring matches with exactly the parameters
  (firstNamePattern, lastNamePattern) in that order; otherwise (firstName non-empty,
  lastName absent or empty) the disjunction over the four fields with exactly four
  parameters, all the same wildcarded firstName. In each shape the text has as many
  placeholders as there are parameters.
\<close>

theorem buildWhereClause_shapes:
  "(\<not> truthy ln1 \<longrightarrow>
      buildWhereClause [] ln1 = \<lparr>wc_whereClause = anyNameClause, wc_params = []\<rparr>) \<and>
   (l2 \<noteq> [] \<longrightarrow>
      buildWhereClause f2 (Some l2) =
        \<lparr>wc_whereClause = bothNamesClause,
         wc_params = [''%'' @ f2 @ ''%'', ''%'' @ l2 @ ''%'']\<rparr>) \<and>
   (f3 \<noteq> [] \<and> \<not> truthy ln3 \<longrightarrow>
      buildWhereClause f3 ln3 =
        \<lparr>wc_whereClause = anyFieldClause, wc_params = replicate 4 (''%'' @ f3 @ ''%'')\<rparr>) \<and>
   count_list (wc_whereClause (buildWhereClause f4 ln4)) (CHR ''?'')
     = length (wc_params (buildWhereClause f4 ln4))"
proof -
  have r: "\<And>x::string. replicate 4 x = [x, x, x, x]" by (simp add: numeral_eq_Suc)
  have a: "\<not> truthy ln1 \<longrightarrow>
      buildWhereClause [] ln1 = \<lparr>wc_whereClause = anyNameClause, wc_params = []\<rparr>"
    by (simp add: buildWhereClause_def)
  have b: "l2 \<noteq> [] \<longrightarrow> buildWhereClause f2 (Some l2) =
       \<lparr>wc_whereClause = bothNamesClause, wc_params = [''%'' @ f2 @ ''%'', ''%'' @ l2 @ ''%'']\<rparr>"
    by (simp add: buildWhereClause_def Let_def)
  have c: "f3 \<noteq> [] \<and> \<not> truthy ln3 \<longrightarrow> buildWhereClause f3 ln3 =
       \<lparr>wc_whereClause = anyFieldClause, wc_params = replicate 4 (''%'' @ f3 @ ''%'')\<rparr>"
    by (cases ln3) (auto simp: buildWhereClause_def r Let_def)
  have d: "count_list (wc_whereClause (buildWhereClause f4 ln4)) (CHR ''?'')
     = length (wc_params (buildWhereClause f4 ln4))"
    by (cases ln4) (simp_all add: buildWhereClause_def placeholders Let_def)
  from a b c d show ?thesis by blast
qed

theorem buildWhereClause_shapes_witness:
  "buildWhereClause [] (Some '''') = \<lparr>wc_whereClause = anyNameClause, wc_params = []\<rparr> \<and>
   buildWhereClause ''Jo'' (Some ''Sm'') =
     \<lparr>wc_whereClause = bothNamesClause, wc_params = [''%Jo%'', ''%Sm%'']\<rparr> \<and>
   buildWhereClause ''Jo'' None =
     \<lparr>wc_whereClause = anyFieldClause, wc_params = [''%Jo%'', ''%Jo%'', ''%Jo%'', ''%Jo%'']\<rparr>"
  using buildWhereClause_shapes [of "Some ''''" "''Sm''" "''Jo''" "''Jo''" None "''Jo''" None]
  by (simp add: numeral_eq_Suc)

subsection \<open>Aggregation across databases\<close>

lemma answers_tableDatabase: "answers (tableDatabase ms) f l ms"
  by (simp add: answers_def tableDatabase_def countContactHandles_def fetchContactHandles_def
      Let_def)

lemma visitDatabase_total:
  "countContactHandles db f l = Inr c \<Longrightarrow>
   totalAcrossDbs (visitDatabase f l db s) = totalAcrossDbs s + c"
  by (simp add: visitDatabase_def Let_def split: sum.splits)

lemma visitDatabases_total:
  "map (\<lambda>db. countContactHandles db f l) dbs = map Inr counts \<Longrightarrow>
   totalAcrossDbs (visitDatabases f l dbs s) = totalAcrossDbs s + sum_list counts"
proof (induction dbs arbitrary: s counts)
  case Nil
  then show ?case by simp
next
  case (Cons db dbs)
  then obtain c cs where counts: "counts = c # cs" by (cases counts) auto
  with Cons.prems have c: "countContactHandles db f l = Inr c"
    and cs: "map (\<lambda>db. countContactHandles db f l) dbs = map Inr cs" by auto
  show ?case
    using Cons.IH[OF cs] visitDatabase_total[OF c] counts by simp
qed

lemma visit_fetch:
  assumes "answers db f l ms" and "remainingOffset s < int (length ms)" and "0 < remainingLimit s"
  shows "visitDatabase f l db s =
     s\<lparr>totalAcrossDbs := totalAcrossDbs s + int (length ms),
       results := results s @ sqlite_limit_offset (remainingLimit s) (remainingOffset s) ms,
       remainingOffset := 0,
       remainingLimit := remainingLimit s
          - int (length (sqlite_limit_offset (remainingLimit s) (remainingOffset s) ms)),
       events := events s @ [Fetched (remainingLimit s) (remainingOffset s)
          (length (sqlite_limit_offset (remainingLimit s) (remainingOffset s) ms))]\<rparr>"
  using assms by (simp add: visitDatabase_def answers_def Let_def)

lemma visit_page_full:
  assumes "countContactHandles db f l = Inr c" and "remainingOffset s < c" and "remainingLimit s \<le> 0"
  shows "visitDatabase f l db s =
     s\<lparr>totalAcrossDbs := totalAcrossDbs s + c, events := events s @ [PageFull]\<rparr>"
  using assms by (simp add: visitDatabase_def Let_def)

text \<open>
  C1: three databases holding 3, 5 and 2 matching rows, limit 4, offset 2. The first
  is asked for 4 rows from offset 2 and returns 1 (its last); the second is asked for 3
  rows from offset 0 and returns 3; the third is counted and not fetched; 4 rows are
  returned and the total is 10.
\<close>

theorem aggregation_example:
  assumes a1: "answers d1 f l m1" and n1: "length m1 = 3"
      and a2: "answers d2 f l m2" and n2: "length m2 = 5"
      and a3: "answers d3 f l m3" and n3: "length m3 = 2"
  shows "events (searchRun [d1, d2, d3] f l 4 2) = [Fetched 4 2 1, Fetched 3 0 3, PageFull] \<and>
         searchContactHandlesAcrossDatabases [d1, d2, d3] f l 4 2 = (drop 2 m1 @ take 3 m2, 10) \<and>
         length (fst (searchContactHandlesAcrossDatabases [d1, d2, d3] f l 4 2)) = 4"
proof -
  let ?s0 = "initialState 4 2"
  let ?s1 = "\<lparr>totalAcrossDbs = 3, remainingOffset = 0, remainingLimit = 3,
      results = drop 2 m1, events = [Fetched 4 2 1]\<rparr>"
  let ?s2 = "\<lparr>totalAcrossDbs = 8, remainingOffset = 0, remainingLimit = 0,
      results = drop 2 m1 @ take 3 m2, events = [Fetched 4 2 1, Fetched 3 0 3]\<rparr>"
  let ?s3 = "\<lparr>totalAcrossDbs = 10, remainingOffset = 0, remainingLimit = 0,
      results = drop 2 m1 @ take 3 m2, events = [Fetched 4 2 1, Fetched 3 0 3, PageFull]\<rparr>"
  have s1: "visitDatabase f l d1 ?s0 = ?s1"
    using visit_fetch[OF a1, of ?s0] n1
    by (simp add: initialState_def sqlite_limit_offset_def)
  have s2: "visitDatabase f l d2 ?s1 = ?s2"
    using visit_fetch[OF a2, of ?s1] n2
    by (simp add: sqlite_limit_offset_def)
  have c3: "countContactHandles d3 f l = Inr 2"
    using a3 n3 by (simp add: answers_def)
  have s3: "visitDatabase f l d3 ?s2 = ?s3"
    using visit_page_full[OF c3, of ?s2] by simp
  have run: "searchRun [d1, d2, d3] f l 4 2 = ?s3"
    by (simp only: searchRun_def visitDatabases.simps s1 s2 s3)
  show ?thesis
    using n1 n2 by (simp add: searchContactHandlesAcrossDatabases_def run Let_def)
qed

theorem aggregation_example_witness:
  "events (searchRun
       [tableDatabase (map (emailRow ''Acme'') [''a@x'', ''b@x'', ''c@x'']),
        tableDatabase (map (emailRow ''Acme'') [''d@x'', ''e@x'', ''f@x'', ''g@x'', ''h@x'']),
        tableDatabase (map (emailRow ''Acme'') [''i@x'', ''j@x''])] ''Ac'' None 4 2)
     = [Fetched 4 2 1, Fetched 3 0 3, PageFull] \<and>
   searchContactHandlesAcrossDatabases
       [tableDatabase (map (emailRow ''Acme'') [''a@x'', ''b@x'', ''c@x'']),
        tableDatabase (map (emailRow ''Acme'') [''d@x'', ''e@x'', ''f@x'', ''g@x'', ''h@x'']),
        tableDatabase (map (emailRow ''Acme'') [''i@x'', ''j@x''])] ''Ac'' None 4 2
     = (map (emailRow ''Acme'') [''c@x'', ''d@x'', ''e@x'', ''f@x''], 10)"
  using aggregation_example
    [OF answers_tableDatabase _ answers_tableDatabase _ answers_tableDatabase,
      of "map (emailRow ''Acme'') [''a@x'', ''b@x'', ''c@x'']"
         "map (emailRow ''Acme'') [''d@x'', ''e@x'', ''f@x'', ''g@x'', ''h@x'']"
         "map (emailRow ''Acme'') [''i@x'', ''j@x'']" "''Ac''" None]
  by simp

text \<open>
  C2: when the count query of every database succeeds, the reported total is the sum of
  the counts, whatever the limit and the offset are and whatever the data queries
  return: the count is added before the loop body looks at the offset or at the limit.
  In particular the databases reached after the page is full are counted.
\<close>

theorem total_is_sum_of_counts:
  assumes "map (\<lambda>db. countContactHandles db f l) dbs = map Inr counts"
  shows "snd (searchContactHandlesAcrossDatabases dbs f l limit offset) = sum_list counts"
  using visitDatabases_total[OF assms, of "initialState limit offset"]
  by (simp add: searchContactHandlesAcrossDatabases_def searchRun_def Let_def initialState_def)

theorem total_is_sum_of_counts_witness:
  "snd (searchContactHandlesAcrossDatabases
       [tableDatabase (map (emailRow ''Acme'') [''a@x'', ''b@x'', ''c@x'']),
        tableDatabase (map (emailRow ''Acme'') [''d@x'', ''e@x'', ''f@x'', ''g@x'', ''h@x'']),
        tableDatabase (map (emailRow ''Acme'') [''i@x'', ''j@x''])] ''Ac'' None 2 0) = 10"
  using total_is_sum_of_counts
    [where dbs = "[tableDatabase (map (emailRow ''Acme'') [''a@x'', ''b@x'', ''c@x'']),
          tableDatabase (map (emailRow ''Acme'') [''d@x'', ''e@x'', ''f@x'', ''g@x'', ''h@x'']),
          tableDatabase (map (emailRow ''Acme'') [''i@x'', ''j@x''])]"
        and f = "''Ac''" and l = None and counts = "[3, 5, 2]" and limit = 2 and offset = 0]
  by (simp add: countContactHandles_def tableDatabase_def)

subsection \<open>Failing queries\<close>

lemma visitDatabases_append:
  "visitDatabases f l (xs @ ys) s = visitDatabases f l ys (visitDatabases f l xs s)"
  by (induction xs arbitrary: s) auto

lemma visitDatabase_events:
  "\<exists>ev. events (visitDatabase f l db s) = events s @ [ev]"
  by (auto simp: visitDatabase_def Let_def split: sum.splits)

lemma visitDatabases_events:
  "\<exists>es. events (visitDatabases f l dbs s) = events s @ es \<and> length es = length dbs"
proof (induction dbs arbitrary: s)
  case Nil
  then show ?case by simp
next
  case (Cons db dbs)
  obtain ev where ev: "events (visitDatabase f l db s) = events s @ [ev]"
    using visitDatabase_events by blast
  obtain es where es: "events (visitDatabases f l dbs (visitDatabase f l db s))
      = events (visitDatabase f l db s) @ es" "length es = length dbs"
    using Cons.IH by blast
  show ?case
    using ev es by (intro exI[of _ "ev # es"]) simp
qed

lemma visitDatabase_core:
  assumes "core s = core s'"
  shows "core (visitDatabase f l db s) = core (visitDatabase f l db s') \<and>
         totalAcrossDbs (visitDatabase f l db s) - totalAcrossDbs s
           = totalAcrossDbs (visitDatabase f l db s') - totalAcrossDbs s'"
  using assms by (auto simp: visitDatabase_def core_def Let_def split: sum.splits)

lemma visitDatabases_core:
  assumes "core s = core s'"
  shows "core (visitDatabases f l dbs s) = core (visitDatabases f l dbs s') \<and>
         totalAcrossDbs (visitDatabases f l dbs s) - totalAcrossDbs s
           = totalAcrossDbs (visitDatabases f l dbs s') - totalAcrossDbs s'"
  using assms
proof (induction dbs arbitrary: s s')
  case Nil
  then show ?case by simp
next
  case (Cons db dbs)
  from visitDatabase_core[OF Cons.prems, of f l db]
  have c: "core (visitDatabase f l db s) = core (visitDatabase f l db s')"
    and t: "totalAcrossDbs (visitDatabase f l db s) - totalAcrossDbs s
           = totalAcrossDbs (visitDatabase f l db s') - totalAcrossDbs s'" by auto
  from Cons.IH[OF c] t show ?case by auto
qed

lemma count_failure_step:
  assumes "countContactHandles db f l = Inl e"
  shows "core (visitDatabase f l db s) = core s \<and>
         totalAcrossDbs (visitDatabase f l db s) = totalAcrossDbs s"
  using assms by (simp add: visitDatabase_def core_def)

lemma fetch_failure_step:
  assumes "countContactHandles db f l = Inr c"
      and "events (visitDatabase f l db s) = events s @ [FetchFailed lm k e]"
  shows "core (visitDatabase f l db s) = core s \<and>
         totalAcrossDbs (visitDatabase f l db s) = totalAcrossDbs s + c"
  using assms by (auto simp: visitDatabase_def core_def Let_def split: sum.splits if_splits)

lemma result_of_run:
  "searchContactHandlesAcrossDatabases dbs f l limit offset =
     (results (searchRun dbs f l limit offset), totalAcrossDbs (searchRun dbs f l limit offset))"
  by (simp add: searchContactHandlesAcrossDatabases_def Let_def)

lemma count_failure_skipped:
  assumes "countContactHandles bad f l = Inl e"
  shows "searchContactHandlesAcrossDatabases (pre @ bad # post) f l limit offset
       = searchContactHandlesAcrossDatabases (pre @ post) f l limit offset"
proof -
  let ?s = "visitDatabases f l pre (initialState limit offset)"
  from count_failure_step[OF assms, of ?s]
  have c: "core (visitDatabase f l bad ?s) = core ?s"
    and t: "totalAcrossDbs (visitDatabase f l bad ?s) = totalAcrossDbs ?s" by auto
  from visitDatabases_core[OF c, of f l post] t
  have "results (visitDatabases f l post (visitDatabase f l bad ?s)) = results (visitDatabases f l post ?s)"
    and "totalAcrossDbs (visitDatabases f l post (visitDatabase f l bad ?s))
       = totalAcrossDbs (visitDatabases f l post ?s)"
    by (auto simp: core_def)
  then show ?thesis
    by (simp add: result_of_run searchRun_def visitDatabases_append)
qed

lemma fetch_failure_skipped:
  assumes cnt: "countContactHandles bad f l = Inr c"
      and ev: "events (searchRun (pre @ bad # post) f l limit offset) ! length pre = FetchFailed lm k e"
  shows "searchContactHandlesAcrossDatabases (pre @ bad # post) f l limit offset
       = (fst (searchContactHandlesAcrossDatabases (pre @ post) f l limit offset),
          snd (searchContactHandlesAcrossDatabases (pre @ post) f l limit offset) + c)"
proof -
  let ?s = "visitDatabases f l pre (initialState limit offset)"
  let ?b = "visitDatabase f l bad ?s"
  obtain es where es: "events ?s = es" "length es = length pre"
    using visitDatabases_events[of f l pre "initialState limit offset"]
    by (auto simp: initialState_def)
  obtain ev1 where ev1: "events ?b = events ?s @ [ev1]"
    using visitDatabase_events by blast
  obtain es2 where es2: "events (visitDatabases f l post ?b) = events ?b @ es2"
    using visitDatabases_events by blast
  have "events (searchRun (pre @ bad # post) f l limit offset) = es @ ev1 # es2"
    using es ev1 es2 by (simp add: searchRun_def visitDatabases_append)
  with ev es have "ev1 = FetchFailed lm k e" by (simp add: nth_append)
  with ev1 have "events ?b = events ?s @ [FetchFailed lm k e]" by simp
  from fetch_failure_step[OF cnt this]
  have c: "core ?b = core ?s" and t: "totalAcrossDbs ?b = totalAcrossDbs ?s + c" by auto
  from visitDatabases_core[OF c, of f l post] t
  have "results (visitDatabases f l post ?b) = results (visitDatabases f l post ?s)"
    and "totalAcrossDbs (visitDatabases f l post ?b)
       = totalAcrossDbs (visitDatabases f l post ?s) + c"
    by (auto simp: core_def)
  then show ?thesis
    by (simp add: result_of_run searchRun_def visitDatabases_append)
qed

lemma visitDatabase_accounted:
  assumes "accounted s" and "fetches_within_count db f l"
  shows "accounted (visitDatabase f l db s)"
proof (cases "countContactHandles db f l")
  case (Inl e)
  with assms show ?thesis by (simp add: visitDatabase_def accounted_def failures_def)
next
  case (Inr c)
  with assms(2) have c0: "0 \<le> c"
    and le: "\<And>lm k rows. fetchContactHandles db f l lm k = Inr rows \<Longrightarrow> int (length rows) \<le> c"
    by (auto simp: fetches_within_count_def)
  show ?thesis
  proof (cases "fetchContactHandles db f l (remainingLimit s) (remainingOffset s)")
    case (Inl e)
    with Inr assms(1) c0 show ?thesis
      by (auto simp: visitDatabase_def accounted_def failures_def Let_def)
  next
    case r: (Inr rows)
    from le[OF r] Inr r assms(1) c0 show ?thesis
      by (auto simp: visitDatabase_def accounted_def failures_def Let_def)
  qed
qed

lemma visitDatabases_accounted:
  assumes "accounted s" and "\<forall>db \<in> set dbs. fetches_within_count db f l"
  shows "accounted (visitDatabases f l dbs s)"
  using assms by (induction dbs arbitrary: s) (auto intro: visitDatabase_accounted)

lemma total_exceeds_rows:
  assumes "0 \<le> offset" and "\<forall>db \<in> set dbs. fetches_within_count db f l"
      and "FetchFailed lm k e \<in> set (events (searchRun dbs f l limit offset))"
  shows "int (length (fst (searchContactHandlesAcrossDatabases dbs f l limit offset)))
       < snd (searchContactHandlesAcrossDatabases dbs f l limit offset)"
proof -
  have "accounted (initialState limit offset)"
    using assms(1) by (simp add: accounted_def initialState_def failures_def)
  from visitDatabases_accounted[OF this assms(2)]
  have i: "accounted (searchRun dbs f l limit offset)" by (simp add: searchRun_def)
  have "filter isFetchFailed (events (searchRun dbs f l limit offset)) \<noteq> []"
    using assms(3) by (auto simp: filter_empty_conv intro!: bexI[of _ "FetchFailed lm k e"])
  then have "0 < failures (searchRun dbs f l limit offset)"
    by (simp add: failures_def)
  with i show ?thesis by (simp add: accounted_def result_of_run)
qed

lemma search_succeeds: "\<exists>r. searchContactsByName dbs f l limit_arg offset_arg = Inr r"
  by (simp add: searchContactsByName_def Let_def split: prod.splits)

lemmas run_defs = searchRun_def initialState_def visitDatabase_def countContactHandles_def
  fetchContactHandles_def tableDatabase_def fetchFailingDatabase_def countFailingDatabase_def
  sqlite_limit_offset_def Let_def

lemma length_sqlite_limit_offset: "length (sqlite_limit_offset lm k ms) \<le> length ms"
  by (auto simp: sqlite_limit_offset_def Let_def intro: min.coboundedI1)

lemma fetches_within_count_table: "fetches_within_count (tableDatabase ms) f l"
  using length_sqlite_limit_offset[of _ _ ms]
  by (auto simp: fetches_within_count_def tableDatabase_def countContactHandles_def
      fetchContactHandles_def Let_def)

lemma fetches_within_count_failing: "0 \<le> n \<Longrightarrow> fetches_within_count (fetchFailingDatabase n) f l"
  by (auto simp: fetches_within_count_def fetchFailingDatabase_def countContactHandles_def
      fetchContactHandles_def Let_def)

lemma failing_fetch_run:
  "searchRun [tableDatabase (map (emailRow ''Acme'') [''a@x'', ''b@x'', ''c@x'']),
              fetchFailingDatabase 5,
              tableDatabase (map (emailRow ''Acme'') [''i@x'', ''j@x''])] ''Ac'' None 4 2 =
   \<lparr>totalAcrossDbs = 10, remainingOffset = 0, remainingLimit = 1,
    results = map (emailRow ''Acme'') [''c@x'', ''i@x'', ''j@x''],
    events = [Fetched 4 2 1, FetchFailed 3 0 (QueryError ''disk I/O error''), Fetched 3 0 2]\<rparr>"
  by (simp add: run_defs)

text \<open>
  C8: a failing query of one database does not fail the search. If the count query of
  a database throws, the result is that of the search over the list without that
  database. If its count succeeds and its data query throws (the event logged at its
  position is \<open>FetchFailed\<close>), the rows are those of the search over the list without that
  database and the total is larger by its count: the count is not rolled back. So, with
  a non-negative offset and databases whose counts bound their fetches, a failed fetch
  makes the total exceed the number of rows returned. The search as a whole returns a
  result and no error.
\<close>

theorem per_source_failure:
  "(countContactHandles badc f l = Inl e1 \<longrightarrow>
      searchContactHandlesAcrossDatabases (pre @ badc # post) f l limit offset
        = searchContactHandlesAcrossDatabases (pre @ post) f l limit offset) \<and>
   (countContactHandles badf f l = Inr c \<and>
    events (searchRun (pre @ badf # post) f l limit offset) ! length pre = FetchFailed lm k e2 \<longrightarrow>
      searchContactHandlesAcrossDatabases (pre @ badf # post) f l limit offset
        = (fst (searchContactHandlesAcrossDatabases (pre @ post) f l limit offset),
           snd (searchContactHandlesAcrossDatabases (pre @ post) f l limit offset) + c)) \<and>
   (0 \<le> offset \<and> (\<forall>db \<in> set dbs. fetches_within_count db f l) \<and>
    FetchFailed lm3 k3 e3 \<in> set (events (searchRun dbs f l limit offset)) \<longrightarrow>
      int (length (fst (searchContactHandlesAcrossDatabases dbs f l limit offset)))
        < snd (searchContactHandlesAcrossDatabases dbs f l limit offset)) \<and>
   (\<exists>r. searchContactsByName dbs f l limit_arg offset_arg = Inr r)"
  using count_failure_skipped[of badc f l e1 pre post limit offset]
    fetch_failure_skipped[of badf f l c pre post limit offset lm k e2]
    total_exceeds_rows[of offset dbs f l lm3 k3 e3 limit]
    search_succeeds[of dbs f l limit_arg offset_arg]
  by blast

theorem per_source_failure_witness:
  "searchContactHandlesAcrossDatabases
     [tableDatabase (map (emailRow ''Acme'') [''a@x'', ''b@x'', ''c@x'']),
      countFailingDatabase,
      tableDatabase (map (emailRow ''Acme'') [''i@x'', ''j@x''])] ''Ac'' None 4 2
   = searchContactHandlesAcrossDatabases
     [tableDatabase (map (emailRow ''Acme'') [''a@x'', ''b@x'', ''c@x'']),
      tableDatabase (map (emailRow ''Acme'') [''i@x'', ''j@x''])] ''Ac'' None 4 2 \<and>
   searchContactHandlesAcrossDatabases
     [tableDatabase (map (emailRow ''Acme'') [''a@x'', ''b@x'', ''c@x'']),
      fetchFailingDatabase 5,
      tableDatabase (map (emailRow ''Acme'') [''i@x'', ''j@x''])] ''Ac'' None 4 2
   = (fst (searchContactHandlesAcrossDatabases
       [tableDatabase (map (emailRow ''Acme'') [''a@x'', ''b@x'', ''c@x'']),
        tableDatabase (map (emailRow ''Acme'') [''i@x'', ''j@x''])] ''Ac'' None 4 2),
      snd (searchContactHandlesAcrossDatabases
       [tableDatabase (map (emailRow ''Acme'') [''a@x'', ''b@x'', ''c@x'']),
        tableDatabase (map (emailRow ''Acme'') [''i@x'', ''j@x''])] ''Ac'' None 4 2) + 5) \<and>
   int (length (fst (searchContactHandlesAcrossDatabases
     [tableDatabase (map (emailRow ''Acme'') [''a@x'', ''b@x'', ''c@x'']),
      fetchFailingDatabase 5,
      tableDatabase (map (emailRow ''Acme'') [''i@x'', ''j@x''])] ''Ac'' None 4 2)))
     < snd (searchContactHandlesAcrossDatabases
     [tableDatabase (map (emailRow ''Acme'') [''a@x'', ''b@x'', ''c@x'']),
      fetchFailingDatabase 5,
      tableDatabase (map (emailRow ''Acme'') [''i@x'', ''j@x''])] ''Ac'' None 4 2) \<and>
   (\<exists>r. searchContactsByName
     [tableDatabase (map (emailRow ''Acme'') [''a@x'', ''b@x'', ''c@x'']),
      fetchFailingDatabase 5,
      tableDatabase (map (emailRow ''Acme'') [''i@x'', ''j@x''])] ''Ac'' None (Some 4) (Some 2) = Inr r)"
proof -
  let ?t3 = "tableDatabase (map (emailRow ''Acme'') [''a@x'', ''b@x'', ''c@x''])"
  let ?t2 = "tableDatabase (map (emailRow ''Acme'') [''i@x'', ''j@x''])"
  have h1: "countContactHandles countFailingDatabase ''Ac'' None
      = Inl (QueryError ''no such table: ZABCDRECORD'')"
    by (simp add: countContactHandles_def countFailingDatabase_def)
  have h2: "countContactHandles (fetchFailingDatabase 5) ''Ac'' None = Inr 5"
    by (simp add: countContactHandles_def fetchFailingDatabase_def)
  have h3: "events (searchRun ([?t3] @ fetchFailingDatabase 5 # [?t2]) ''Ac'' None 4 2) ! length [?t3]
      = FetchFailed 3 0 (QueryError ''disk I/O error'')"
    using failing_fetch_run by simp
  have h4: "\<forall>db \<in> set [?t3, fetchFailingDatabase 5, ?t2]. fetches_within_count db ''Ac'' None"
    by (simp add: fetches_within_count_table fetches_within_count_failing)
  have h5: "FetchFailed 3 0 (QueryError ''disk I/O error'')
      \<in> set (events (searchRun [?t3, fetchFailingDatabase 5, ?t2] ''Ac'' None 4 2))"
    using failing_fetch_run by simp
  note inst = per_source_failure [where badc = countFailingDatabase and f = "''Ac''" and l = None
        and ?e1.0 = "QueryError ''no such table: ZABCDRECORD''"
        and pre = "[?t3]" and post = "[?t2]" and limit = 4 and offset = 2
        and badf = "fetchFailingDatabase 5" and c = 5 and lm = 3 and k = 0
        and ?e2.0 = "QueryError ''disk I/O error''"
        and dbs = "[?t3, fetchFailingDatabase 5, ?t2]" and ?lm3.0 = 3 and ?k3.0 = 0
        and ?e3.0 = "QueryError ''disk I/O error''"
        and limit_arg = "Some 4" and offset_arg = "Some 2"]
  from inst h1 have a:
    "searchContactHandlesAcrossDatabases ([?t3] @ countFailingDatabase # [?t2]) ''Ac'' None 4 2
      = searchContactHandlesAcrossDatabases ([?t3] @ [?t2]) ''Ac'' None 4 2"
    by blast
  from inst h2 h3 have b:
    "searchContactHandlesAcrossDatabases ([?t3] @ fetchFailingDatabase 5 # [?t2]) ''Ac'' None 4 2
      = (fst (searchContactHandlesAcrossDatabases ([?t3] @ [?t2]) ''Ac'' None 4 2),
         snd (searchContactHandlesAcrossDatabases ([?t3] @ [?t2]) ''Ac'' None 4 2) + 5)"
    by blast
  from inst h4 h5 have c:
    "int (length (fst (searchContactHandlesAcrossDatabases
        [?t3, fetchFailingDatabase 5, ?t2] ''Ac'' None 4 2)))
      < snd (searchContactHandlesAcrossDatabases [?t3, fetchFailingDatabase 5, ?t2] ''Ac'' None 4 2)"
    by simp
  from inst have d:
    "\<exists>r. searchContactsByName [?t3, fetchFailingDatabase 5, ?t2] ''Ac'' None (Some 4) (Some 2) = Inr r"
    by blast
  from a b c d show ?thesis
    unfolding append.simps by blast
qed

subsection \<open>Double arithmetic on integers up to \<open>2^53\<close>\<close>

text \<open>
  Within \<open>2^53\<close> the rounded operations are the exact ones: the floor and the ceiling of
  a rounded quotient are those of the quotient, and a sum is not rounded. Beyond, a
  sum is rounded: \<open>2^53 + 1\<close> is \<open>2^53\<close>.
\<close>

lemma rhe_bounds:
  assumes "0 < y"
  shows "x div y \<le> round_half_even x y" "round_half_even x y \<le> x div y + 1"
  by (auto simp: round_half_even_def Let_def)

lemma rhe_exact: "0 < y \<Longrightarrow> x mod y = 0 \<Longrightarrow> round_half_even x y = x div y"
  by (simp add: round_half_even_def Let_def)

lemma rhe_down: "2 * (x mod y) < y \<Longrightarrow> round_half_even x y = x div y"
  by (simp add: round_half_even_def Let_def)

lemma rhe_neg:
  assumes "0 < y"
  shows "round_half_even (- x) y = - round_half_even x y"
proof (cases "x mod y = 0")
  case True
  then have "(- x) mod y = 0" by (simp add: zmod_zminus1_eq_if)
  with True assms show ?thesis by (simp add: rhe_exact zdiv_zminus1_eq_if)
next
  case False
  with assms have d: "(- x) div y = - (x div y) - 1" and m: "(- x) mod y = y - x mod y"
    by (simp_all add: zdiv_zminus1_eq_if zmod_zminus1_eq_if)
  show ?thesis
    unfolding round_half_even_def Let_def d m by auto
qed

lemma bitlen_pos: "0 < x \<Longrightarrow> 1 \<le> bitlen x"
  using bitlen_eq_zero_iff[of x] bitlen_nonneg[of x] by linarith

lemma binade_lower:
  assumes a: "0 < a" and b: "0 < b" and e: "0 \<le> binade a b"
  shows "b * 2 ^ nat (binade a b) \<le> a"
proof -
  let ?d = "bitlen a - bitlen b"
  show ?thesis
  proof (cases "if 0 \<le> ?d then b * 2 ^ nat ?d \<le> a else b \<le> a * 2 ^ nat (- ?d)")
    case True
    then have eq: "binade a b = ?d" by (simp add: binade_def Let_def)
    with e True show ?thesis by simp
  next
    case False
    then have eq: "binade a b = ?d - 1" by (simp add: binade_def Let_def)
    with e have d1: "1 \<le> ?d" by simp
    have lb: "1 \<le> bitlen b" using b by (rule bitlen_pos)
    have "b < 2 ^ nat (bitlen b)" using bitlen_bounds[OF b] by simp
    then have "b * 2 ^ nat (?d - 1) < 2 ^ nat (bitlen b) * 2 ^ nat (?d - 1)"
      by (simp add: mult_strict_right_mono)
    also have "\<dots> = 2 ^ (nat (bitlen b) + nat (?d - 1))" by (simp add: power_add)
    also have "nat (bitlen b) + nat (?d - 1) = nat (bitlen a - 1)"
      using lb d1 by linarith
    also have "(2::int) ^ nat (bitlen a - 1) \<le> a" using bitlen_bounds[OF a] by simp
    finally show ?thesis using eq by simp
  qed
qed

lemma scaled_floor:
  assumes v: "0 < v" and b: "0 < b" and c: "b < 2 * v \<or> a mod b = 0"
  shows "round_half_even (a * v) b div v = a div b"
proof -
  define n s where "n = a div b" and "s = a mod b"
  define x where "x = a * v"
  define Q R where "Q = x div b" and "R = x mod b"
  define r where "r = round_half_even x b"
  have a_eq: "a = n * b + s" and s0: "0 \<le> s" and sb: "s < b"
    using b by (simp_all add: n_def s_def)
  have x_eq: "x = Q * b + R" and R0: "0 \<le> R" and Rb: "R < b"
    using b by (simp_all add: Q_def R_def)
  have x_eq2: "x = (n * v) * b + s * v"
    unfolding x_def by (subst a_eq) (simp add: algebra_simps)
  have sv0: "0 \<le> s * v" using s0 v by simp
  have svb: "s * v < b * v" using sb v by (simp add: mult_strict_right_mono)
  have lo: "n * v \<le> Q"
  proof -
    have "(n * v) * b \<le> x" using x_eq2 sv0 by linarith
    then have "((n * v) * b) div b \<le> x div b" by (rule zdiv_mono1) (rule b)
    then show ?thesis using b by (simp add: Q_def)
  qed
  have hi: "Q < (n + 1) * v"
  proof -
    have "x < ((n + 1) * v) * b" using x_eq2 svb by (simp add: algebra_simps)
    moreover have "Q * b \<le> x" using x_eq R0 by linarith
    ultimately have "Q * b < ((n + 1) * v) * b" by linarith
    then show ?thesis using b by (simp add: mult_less_cancel_right)
  qed
  have rQ: "Q \<le> r" "r \<le> Q + 1"
    using rhe_bounds[OF b, of x] by (simp_all add: r_def Q_def)
  have up: "r < (n + 1) * v"
  proof (cases "s = 0")
    case True
    then have "x mod b = 0" using x_eq2 by simp
    then have "r = Q" using b by (simp add: r_def Q_def rhe_exact)
    with hi show ?thesis by simp
  next
    case False
    with c have bv: "b < 2 * v" by (simp add: s_def)
    show ?thesis
    proof (rule ccontr)
      assume "\<not> r < (n + 1) * v"
      with rQ hi have r1: "r = Q + 1" and Qe: "Q = (n + 1) * v - 1" by linarith+
      from r1 have "\<not> 2 * R < b"
        using rhe_down[of x b] by (auto simp: r_def Q_def R_def)
      moreover have "R = b - (b - s) * v"
        using x_eq x_eq2 Qe by (simp add: algebra_simps)
      moreover have "v \<le> (b - s) * v"
        using sb v by (simp add: mult_le_cancel_right1)
      ultimately show False using bv by linarith
    qed
  qed
  have "r = v * n + (r - v * n)" by simp
  moreover have "0 \<le> r - v * n" using lo rQ by (simp add: mult.commute)
  moreover have "r - v * n < v" using up by (simp add: algebra_simps)
  ultimately have "r div v = n" by (rule int_div_pos_eq)
  then show ?thesis by (simp add: r_def x_def n_def)
qed

lemma div_abs_le:
  fixes a b :: int
  assumes b: "0 < b"
  shows "\<bar>a div b\<bar> \<le> \<bar>a\<bar>"
proof -
  have "a div b \<le> \<bar>a\<bar>"
  proof (cases "0 \<le> a")
    case True
    then have "a div b \<le> a div 1" using b by (intro zdiv_mono2) simp_all
    then show ?thesis by simp
  next
    case False
    then have "a div b \<le> 0" using b by (simp add: div_nonpos_pos_le0)
    then show ?thesis by linarith
  qed
  moreover have "- \<bar>a\<bar> \<le> a div b"
  proof (cases "0 \<le> a")
    case True
    then have "0 \<le> a div b" using b by (simp add: pos_imp_zdiv_nonneg_iff)
    then show ?thesis by linarith
  next
    case False
    have "a * b \<le> a * 1" using False b by (intro mult_left_mono_neg) linarith+
    then have "(a * b) div b \<le> a div b" using b by (intro zdiv_mono1) simp_all
    then show ?thesis using False b by simp
  qed
  ultimately show ?thesis by linarith
qed

lemma small_cases:
  fixes b u :: int
  assumes "0 < b" "0 < u" "b * u \<le> 2"
  shows "(b = 1 \<and> u = 1) \<or> (b = 1 \<and> u = 2) \<or> (b = 2 \<and> u = 1)"
proof -
  have "b \<le> b * u" using assms by (simp add: mult_le_cancel_left1)
  moreover have "u \<le> b * u" using assms by (simp add: mult_le_cancel_right1)
  ultimately have "b \<le> 2" "u \<le> 2" using assms by linarith+
  with assms have "b = 1 \<or> b = 2" "u = 1 \<or> u = 2" by linarith+
  with assms show ?thesis by auto
qed

lemma floor_exact:
  assumes b: "0 < b" and bb: "b \<le> 2 ^ 53" and ab: "\<bar>a\<bar> \<le> 2 ^ 53"
  shows "double_floor (nearest_double a b) = Finite (a div b)"
proof (cases "a = 0")
  case True
  then show ?thesis by (simp add: nearest_double_def double_floor_def)
next
  case False
  define e where "e = max (binade \<bar>a\<bar> b) (- 1022)"
  define k where "k = e - 52"
  have a0: "0 < \<bar>a\<bar>" using False by simp
  have nd: "nearest_double a b =
      (if 0 \<le> k then round_half_even a (b * 2 ^ nat k)
       else round_half_even (a * 2 ^ nat (- k)) b, k)"
    using False by (simp add: nearest_double_def Let_def e_def k_def)
  have small: "\<bar>a div b\<bar> < 2 ^ 1024"
  proof -
    have "\<bar>a div b\<bar> \<le> \<bar>a\<bar>" using b by (rule div_abs_le)
    also have "\<dots> \<le> 2 ^ 53" by (rule ab)
    also have "(2::int) ^ 53 < 2 ^ 1024" by (rule power_strict_increasing) simp_all
    finally show ?thesis .
  qed
  show ?thesis
  proof (cases "0 \<le> k")
    case True
    then have e52: "52 \<le> e" by (simp add: k_def)
    then have ee: "e = binade \<bar>a\<bar> b" by (simp add: e_def max_def split: if_splits)
    define u :: int where "u = 2 ^ nat k"
    have u0: "0 < u" by (simp add: u_def)
    have "nat e = nat k + 52" using True by (simp add: k_def)
    then have pe: "(2::int) ^ nat e = u * 2 ^ 52" by (simp add: u_def power_add)
    have "b * 2 ^ nat e \<le> \<bar>a\<bar>"
      using binade_lower[OF a0 b] e52 ee by simp
    with pe ab have le: "(b * u) * 2 ^ 52 \<le> 2 * 2 ^ 52" and le2: "(b * u) * 2 ^ 52 \<le> \<bar>a\<bar>"
      by (simp_all add: mult.assoc)
    from le have bu: "b * u \<le> 2" by simp
    from small_cases[OF b u0 bu] have w: "round_half_even a (b * u) * u = a div b"
    proof (elim disjE conjE)
      assume "b = 1" "u = 1"
      then show ?thesis by (simp add: rhe_exact)
    next
      assume "b = 1" "u = 2"
      with le2 ab have "\<bar>a\<bar> = 2 ^ 53" by simp
      then have "a = 2 ^ 53 \<or> a = - (2 ^ 53)" by linarith
      then have "a mod 2 = 0" by auto
      moreover from this have "a div 2 * 2 = a" by presburger
      ultimately show ?thesis using \<open>b = 1\<close> \<open>u = 2\<close> by (simp add: rhe_exact)
    next
      assume "b = 2" "u = 1"
      with le2 ab have "\<bar>a\<bar> = 2 ^ 53" by simp
      then have "a = 2 ^ 53 \<or> a = - (2 ^ 53)" by linarith
      then have "a mod 2 = 0" by auto
      with \<open>b = 2\<close> \<open>u = 1\<close> show ?thesis by (simp add: rhe_exact)
    qed
    have "nearest_double a b = (round_half_even a (b * u), k)"
      using True by (simp add: nd u_def)
    then show ?thesis
      using True w small by (simp add: double_floor_def Let_def u_def)
  next
    case neg: False
    define v :: int where "v = 2 ^ nat (- k)"
    have v0: "0 < v" by (simp add: v_def)
    have c: "b < 2 * v \<or> a mod b = 0"
    proof (cases "e < 0")
      case True
      then have "53 \<le> nat (- k)" by (simp add: k_def)
      then have "(2::int) ^ 53 \<le> v" unfolding v_def by (rule power_increasing) simp
      with bb v0 show ?thesis by linarith
    next
      case False
      then have e0: "0 \<le> e" by simp
      then have ee: "e = binade \<bar>a\<bar> b" by (simp add: e_def max_def split: if_splits)
      have "nat (- k) + nat e = 52" using neg e0 by (simp add: k_def)
      then have "v * 2 ^ nat e = 2 ^ 52" unfolding v_def by (simp flip: power_add)
      then have p: "(2 * v) * 2 ^ nat e = 2 ^ 53" by simp
      have l: "b * 2 ^ nat e \<le> \<bar>a\<bar>"
        using binade_lower[OF a0 b] e0 ee by simp
      with ab p have "b * 2 ^ nat e \<le> (2 * v) * 2 ^ nat e" by linarith
      then have "b \<le> 2 * v" by simp
      show ?thesis
      proof (cases "b = 2 * v")
        case True
        with p have "b * 2 ^ nat e = 2 ^ 53" by simp
        with l ab have "\<bar>a\<bar> = b * 2 ^ nat e" by linarith
        then have "a = b * 2 ^ nat e \<or> a = - (b * 2 ^ nat e)" by linarith
        then have "a mod b = 0" by auto
        then show ?thesis ..
      next
        case False
        with \<open>b \<le> 2 * v\<close> show ?thesis by simp
      qed
    qed
    have "nearest_double a b = (round_half_even (a * v) b, k)"
      using neg by (simp add: nd v_def)
    then show ?thesis
      using neg scaled_floor[OF v0 b c] small by (simp add: double_floor_def Let_def v_def)
  qed
qed

lemma nearest_double_neg:
  assumes b: "0 < b"
  shows "nearest_double (- a) b = (- fst (nearest_double a b), snd (nearest_double a b))"
proof (cases "a = 0")
  case True
  then show ?thesis by (simp add: nearest_double_def)
next
  case False
  then show ?thesis
    using b by (simp add: nearest_double_def Let_def rhe_neg)
qed

lemma ceil_exact:
  assumes b: "0 < b" and bb: "b \<le> 2 ^ 53" and ab: "\<bar>a\<bar> \<le> 2 ^ 53"
  shows "double_ceil (nearest_double a b) = Finite (- ((- a) div b))"
proof -
  obtain m k where mk: "nearest_double a b = (m, k)" by (cases "nearest_double a b")
  then have n: "nearest_double (- a) b = (- m, k)" using nearest_double_neg[OF b, of a] by simp
  have "double_floor (nearest_double (- a) b) = Finite ((- a) div b)"
    using floor_exact[OF b bb, of "- a"] ab by simp
  then show ?thesis
    unfolding mk n double_floor_def double_ceil_def
    by (auto simp: Let_def split: if_splits)
qed

lemma round_large:
  assumes n: "2 ^ 53 \<le> n"
  shows "double_floor (nearest_double n 1) = PosInfinity \<or>
         (\<exists>w\<ge>2 ^ 53. double_floor (nearest_double n 1) = Finite w)"
proof -
  have "(0::int) < 2 ^ 53" by simp
  with n have n0: "0 < n" by linarith
  define d where "d = bitlen n - 1"
  have lo: "2 ^ nat d \<le> n" and hi: "n < 2 ^ nat (bitlen n)"
    using bitlen_bounds[OF n0] by (simp_all add: d_def)
  have "(2::int) ^ 53 < 2 ^ nat (bitlen n)" using n hi by linarith
  then have "53 < nat (bitlen n)" by (rule power_less_imp_less_exp[rotated]) simp
  then have d53: "53 \<le> d" by (simp add: d_def)
  have bin: "binade n 1 = d"
    using n0 lo d53 by (simp add: binade_def Let_def d_def bitlen_def floorlog_def)
  define k where "k = d - 52"
  have k1: "1 \<le> k" using d53 by (simp add: k_def)
  define m where "m = round_half_even n (2 ^ nat k)"
  have nd: "nearest_double n 1 = (m, k)"
    using n0 d53 k1 by (simp add: nearest_double_def Let_def bin k_def m_def)
  have "nat d = 52 + nat k" using k1 by (simp add: k_def)
  then have pd: "(2::int) ^ nat d = 2 ^ 52 * 2 ^ nat k" by (simp add: power_add)
  have "(2 ^ 52 * 2 ^ nat k) div 2 ^ nat k \<le> n div 2 ^ nat k"
    using lo pd by (intro zdiv_mono1) simp_all
  then have "2 ^ 52 \<le> n div 2 ^ nat k" by simp
  also have "\<dots> \<le> m" unfolding m_def by (rule rhe_bounds) simp
  finally have "2 ^ 52 * 2 ^ nat k \<le> m * 2 ^ nat k" by simp
  moreover have "(2::int) ^ 53 \<le> 2 ^ nat d" using d53 by (intro power_increasing) simp_all
  ultimately have w: "2 ^ 53 \<le> m * 2 ^ nat k" using pd by linarith
  show ?thesis
    unfolding nd double_floor_def using k1 w by (auto simp: Let_def)
qed

lemma abs_div_le:
  fixes a b :: int
  assumes "b \<noteq> 0"
  shows "\<bar>a div b\<bar> \<le> \<bar>a\<bar>"
proof (cases "0 < b")
  case True
  then show ?thesis by (rule div_abs_le)
next
  case False
  with assms have "0 < - b" by simp
  from div_abs_le[OF this, of "- a"] show ?thesis by simp
qed

lemma js_floor_quot_exact:
  assumes "b \<noteq> 0" and "\<bar>a\<bar> \<le> 2 ^ 53" and "\<bar>b\<bar> \<le> 2 ^ 53"
  shows "js_floor_quot a b = Finite (a div b)"
proof (cases "0 < b")
  case True
  with assms show ?thesis
    by (simp add: js_floor_quot_def js_quot_def floor_exact)
next
  case False
  with assms have nb: "0 < - b" "- b \<le> 2 ^ 53" "\<bar>- a\<bar> \<le> 2 ^ 53" by simp_all
  from floor_exact[OF this] have "double_floor (nearest_double (- a) (- b)) = Finite (a div b)"
    by simp
  with False assms(1) show ?thesis by (simp add: js_floor_quot_def js_quot_def)
qed

lemma js_ceil_quot_exact:
  assumes "0 < b" and "\<bar>a\<bar> \<le> 2 ^ 53" and "b \<le> 2 ^ 53"
  shows "js_ceil_quot a b = Finite (- ((- a) div b))"
  using assms by (simp add: js_ceil_quot_def js_quot_def ceil_exact)

lemma js_round_exact:
  assumes "\<bar>n\<bar> \<le> 2 ^ 53"
  shows "js_round n = Finite n"
  using floor_exact[of 1 n] assms by (simp add: js_round_def)

lemma js_less_round:
  assumes "- (2 ^ 53) \<le> n" and "t \<le> 2 ^ 53"
  shows "js_less (js_round n) t = (n < t)"
proof (cases "n \<le> 2 ^ 53")
  case True
  with assms have "\<bar>n\<bar> \<le> 2 ^ 53" by linarith
  then show ?thesis by (simp add: js_round_exact)
next
  case False
  then have "2 ^ 53 \<le> n" by simp
  from round_large[OF this] assms(2) False show ?thesis
    by (auto simp: js_round_def)
qed

lemma round_beyond_safe_range: "js_round 9007199254740993 = Finite 9007199254740992"
  by code_simp


subsection \<open>Pagination metadata\<close>

lemma searchContactsByName_safe:
  assumes o0: "0 \<le> offset" and o1: "offset < 2 ^ 53" and l1: "\<bar>limit\<bar> < 2 ^ 53"
      and t1: "\<bar>snd (searchContactHandlesAcrossDatabases dbs f l limit offset)\<bar> < 2 ^ 53"
  shows "searchContactsByName dbs f l (Some limit) (Some offset) =
     Inr \<lparr>data = transformToContactInfo
                   (fst (searchContactHandlesAcrossDatabases dbs f l limit offset)),
          pagination =
            \<lparr>page_total = snd (searchContactHandlesAcrossDatabases dbs f l limit offset),
             page_limit = limit, page_offset = offset,
             page_hasMore =
               (offset + limit < snd (searchContactHandlesAcrossDatabases dbs f l limit offset)),
             page_page = (if limit = 0 then (if offset = 0 then NaN else PosInfinity)
                          else Finite (offset div limit + 1)),
             page_totalPages =
               Finite (if 0 < limit
                       then - ((- snd (searchContactHandlesAcrossDatabases dbs f l limit offset))
                                 div limit)
                       else 0)\<rparr>\<rparr>"
proof -
  obtain rows t where S: "searchContactHandlesAcrossDatabases dbs f l limit offset = (rows, t)"
    by (cases "searchContactHandlesAcrossDatabases dbs f l limit offset")
  have t2: "\<bar>t\<bar> < 2 ^ 53" using t1 by (simp add: S)
  have h: "js_less (js_round (offset + limit)) t = (offset + limit < t)"
    using o0 l1 t2 by (intro js_less_round) linarith+
  have p: "js_plus (js_floor_quot offset limit) 1
      = (if limit = 0 then (if offset = 0 then NaN else PosInfinity)
         else Finite (offset div limit + 1))"
  proof (cases "limit = 0")
    case True
    with o0 show ?thesis by (simp add: js_floor_quot_def)
  next
    case False
    have "\<bar>offset div limit\<bar> \<le> \<bar>offset\<bar>" using False by (rule abs_div_le)
    with o0 o1 have "\<bar>offset div limit + 1\<bar> \<le> 2 ^ 53" by linarith
    then have "js_round (offset div limit + 1) = Finite (offset div limit + 1)"
      by (rule js_round_exact)
    moreover have "js_floor_quot offset limit = Finite (offset div limit)"
      using False o0 o1 l1 by (intro js_floor_quot_exact) linarith+
    ultimately show ?thesis using False by simp
  qed
  have c: "(if 0 < limit then js_ceil_quot t limit else Finite 0)
      = Finite (if 0 < limit then - ((- t) div limit) else 0)"
  proof (cases "0 < limit")
    case True
    then have "js_ceil_quot t limit = Finite (- ((- t) div limit))"
      using l1 t2 by (intro js_ceil_quot_exact) linarith+
    with True show ?thesis by simp
  next
    case False
    then show ?thesis by simp
  qed
  have "searchContactsByName dbs f l (Some limit) (Some offset) =
     Inr \<lparr>data = transformToContactInfo rows,
          pagination =
            \<lparr>page_total = t, page_limit = limit, page_offset = offset,
             page_hasMore = js_less (js_round (offset + limit)) t,
             page_page = js_plus (js_floor_quot offset limit) 1,
             page_totalPages = (if 0 < limit then js_ceil_quot t limit else Finite 0)\<rparr>\<rparr>"
    by (simp add: searchContactsByName_def Let_def S)
  then show ?thesis
    by (simp only: h p c S fst_conv snd_conv)
qed

lemma five_rows_total:
  "snd (searchContactHandlesAcrossDatabases
     [tableDatabase (map (emailRow ''Acme'') [''a@x'', ''b@x'', ''c@x'']),
      tableDatabase (map (emailRow ''Acme'') [''i@x'', ''j@x''])] ''Ac'' None limit offset) = 5"
  using visitDatabases_total[of "''Ac''" None
      "[tableDatabase (map (emailRow ''Acme'') [''a@x'', ''b@x'', ''c@x'']),
        tableDatabase (map (emailRow ''Acme'') [''i@x'', ''j@x''])]" "[3, 2]"]
  by (simp add: searchContactHandlesAcrossDatabases_def searchRun_def Let_def
      initialState_def countContactHandles_def tableDatabase_def)

lemma page_beyond_safe_range:
  "searchContactsByName [] ''Ac'' None (Some 1) (Some 9007199254740992)
   = Inr \<lparr>data = [],
          pagination = \<lparr>page_total = 0, page_limit = 1, page_offset = 9007199254740992,
                        page_hasMore = False, page_page = Finite 9007199254740992,
                        page_totalPages = Finite 0\<rparr>\<rparr>"
proof -
  have "js_floor_quot 9007199254740992 1 = Finite 9007199254740992"
    using js_floor_quot_exact[of 1 9007199254740992] by simp
  moreover have "js_ceil_quot 0 1 = Finite 0"
    using js_ceil_quot_exact[of 1 0] by simp
  ultimately show ?thesis
    by (simp add: searchContactsByName_def searchContactHandlesAcrossDatabases_def searchRun_def
        initialState_def transformToContactInfo_def round_beyond_safe_range)
qed

lemma pagination_positive_limit:
  assumes "0 < limit" and "limit < 2 ^ 53" and "0 \<le> offset" and "offset < 2 ^ 53"
      and "0 \<le> snd (searchContactHandlesAcrossDatabases dbs f l limit offset)"
      and "snd (searchContactHandlesAcrossDatabases dbs f l limit offset) < 2 ^ 53"
  shows "case searchContactsByName dbs f l (Some limit) (Some offset) of
           Inl e \<Rightarrow> False
         | Inr r \<Rightarrow> (\<exists>p\<ge>1. page_page (pagination r) = Finite p) \<and>
                    (\<exists>n\<ge>0. page_totalPages (pagination r) = Finite n)"
proof -
  let ?t = "snd (searchContactHandlesAcrossDatabases dbs f l limit offset)"
  have a: "\<bar>limit\<bar> < 2 ^ 53" "\<bar>?t\<bar> < 2 ^ 53" using assms by linarith+
  have "0 \<le> offset div limit" using assms by (simp add: pos_imp_zdiv_nonneg_iff)
  moreover have "0 \<le> - ((- ?t) div limit)"
    using assms(1,5) by (simp add: div_nonpos_pos_le0)
  ultimately show ?thesis
    using searchContactsByName_safe[OF assms(3,4) a] assms(1) by simp
qed

text \<open>
  C3: for total, limit and offset that are integers of magnitude below \<open>2^53\<close> (the
  integers that a JavaScript number holds exactly), with total and offset not negative,
  the search returns hasMore = (offset + limit < total), page = floor(offset / limit)
  + 1, and totalPages = ceil(total / limit) if limit > 0 and 0 otherwise, the quotients
  being those of the real numbers. For limit = 0 the JavaScript quotient offset / 0 is
  NaN or an infinity, and so is the page. Hence offset + limit = total gives hasMore =
  false, offset + limit < total gives hasMore = true, and limit <= 0 gives totalPages =
  0. (Beyond \<open>2^53\<close> the doubles round: lemma \<open>page_beyond_safe_range\<close>.)
\<close>

theorem pagination_metadata:
  assumes "0 \<le> offset" and "offset < 2 ^ 53" and "\<bar>limit\<bar> < 2 ^ 53"
      and "0 \<le> snd (searchContactHandlesAcrossDatabases dbs f l limit offset)"
      and "snd (searchContactHandlesAcrossDatabases dbs f l limit offset) < 2 ^ 53"
  shows "case searchContactsByName dbs f l (Some limit) (Some offset) of
     Inl e \<Rightarrow> False
   | Inr r \<Rightarrow>
       page_total (pagination r) = snd (searchContactHandlesAcrossDatabases dbs f l limit offset) \<and>
       page_limit (pagination r) = limit \<and> page_offset (pagination r) = offset \<and>
       page_hasMore (pagination r) = (offset + limit < page_total (pagination r)) \<and>
       (limit \<noteq> 0 \<longrightarrow>
          page_page (pagination r) = Finite (\<lfloor>real_of_int offset / real_of_int limit\<rfloor> + 1)) \<and>
       (limit = 0 \<longrightarrow>
          page_page (pagination r)
            = (if offset = 0 then NaN else if 0 < offset then PosInfinity else NegInfinity)) \<and>
       (0 < limit \<longrightarrow>
          page_totalPages (pagination r)
            = Finite \<lceil>real_of_int (page_total (pagination r)) / real_of_int limit\<rceil>) \<and>
       (limit \<le> 0 \<longrightarrow> page_totalPages (pagination r) = Finite 0) \<and>
       (offset + limit = page_total (pagination r) \<longrightarrow> \<not> page_hasMore (pagination r)) \<and>
       (offset + limit < page_total (pagination r) \<longrightarrow> page_hasMore (pagination r))"
proof -
  have "\<bar>snd (searchContactHandlesAcrossDatabases dbs f l limit offset)\<bar> < 2 ^ 53"
    using assms(4,5) by linarith
  from searchContactsByName_safe[OF assms(1-3) this] assms(1) show ?thesis
    by (auto simp: floor_divide_of_int_eq ceiling_divide_eq_div)
qed

theorem pagination_metadata_witness:
  "(case searchContactsByName
       [tableDatabase (map (emailRow ''Acme'') [''a@x'', ''b@x'', ''c@x'']),
        tableDatabase (map (emailRow ''Acme'') [''i@x'', ''j@x''])] ''Ac'' None (Some 2) (Some 1) of
     Inl e \<Rightarrow> False
   | Inr r \<Rightarrow> page_total (pagination r) = 5 \<and> page_hasMore (pagination r) \<and>
              page_page (pagination r) = Finite 1 \<and> page_totalPages (pagination r) = Finite 3) \<and>
   (case searchContactsByName
       [tableDatabase (map (emailRow ''Acme'') [''a@x'', ''b@x'', ''c@x'']),
        tableDatabase (map (emailRow ''Acme'') [''i@x'', ''j@x''])] ''Ac'' None (Some 2) (Some 3) of
     Inl e \<Rightarrow> False
   | Inr r \<Rightarrow> page_total (pagination r) = 5 \<and> \<not> page_hasMore (pagination r) \<and>
              page_page (pagination r) = Finite 2 \<and> page_totalPages (pagination r) = Finite 3) \<and>
   (case searchContactsByName
       [tableDatabase (map (emailRow ''Acme'') [''a@x'', ''b@x'', ''c@x'']),
        tableDatabase (map (emailRow ''Acme'') [''i@x'', ''j@x''])] ''Ac'' None (Some 0) (Some 3) of
     Inl e \<Rightarrow> False
   | Inr r \<Rightarrow> page_total (pagination r) = 5 \<and> page_hasMore (pagination r) \<and>
              page_page (pagination r) = PosInfinity \<and> page_totalPages (pagination r) = Finite 0)"
proof -
  let ?dbs = "[tableDatabase (map (emailRow ''Acme'') [''a@x'', ''b@x'', ''c@x'']),
        tableDatabase (map (emailRow ''Acme'') [''i@x'', ''j@x''])]"
  note t = five_rows_total
  have a: "case searchContactsByName ?dbs ''Ac'' None (Some 2) (Some 1) of
     Inl e \<Rightarrow> False
   | Inr r \<Rightarrow> page_total (pagination r) = 5 \<and> page_hasMore (pagination r) \<and>
              page_page (pagination r) = Finite 1 \<and> page_totalPages (pagination r) = Finite 3"
    using pagination_metadata [where dbs = ?dbs and f = "''Ac''" and l = None and limit = 2 and offset = 1]
    unfolding t by (auto split: sum.splits)
  have b: "case searchContactsByName ?dbs ''Ac'' None (Some 2) (Some 3) of
     Inl e \<Rightarrow> False
   | Inr r \<Rightarrow> page_total (pagination r) = 5 \<and> \<not> page_hasMore (pagination r) \<and>
              page_page (pagination r) = Finite 2 \<and> page_totalPages (pagination r) = Finite 3"
    using pagination_metadata [where dbs = ?dbs and f = "''Ac''" and l = None and limit = 2 and offset = 3]
    unfolding t by (auto split: sum.splits)
  have c: "case searchContactsByName ?dbs ''Ac'' None (Some 0) (Some 3) of
     Inl e \<Rightarrow> False
   | Inr r \<Rightarrow> page_total (pagination r) = 5 \<and> page_hasMore (pagination r) \<and>
              page_page (pagination r) = PosInfinity \<and> page_totalPages (pagination r) = Finite 0"
    using pagination_metadata [where dbs = ?dbs and f = "''Ac''" and l = None and limit = 0 and offset = 3]
    unfolding t by (auto split: sum.splits)
  from a b c show ?thesis by blast
qed

text \<open>
  C9 does not hold of the code at limit = 0: \<open>totalPages\<close> is guarded by
  \<open>limit > 0\<close>, \<open>page\<close> is not, and \<open>Math.floor(0 / 0) + 1\<close> is NaN, which is not an
  integer that is at least 1. (For a positive limit the window is well-formed, lemma
  \<open>pagination_positive_limit\<close>.)
\<close>

theorem page_undefined_at_zero_limit:
  "searchContactsByName
     [tableDatabase (map (emailRow ''Acme'') [''a@x'', ''b@x'', ''c@x''])] ''Ac'' None (Some 0) (Some 0)
   = Inr \<lparr>data = [],
          pagination = \<lparr>page_total = 3, page_limit = 0, page_offset = 0, page_hasMore = True,
                        page_page = NaN, page_totalPages = Finite 0\<rparr>\<rparr>"
  by (simp add: searchContactsByName_def searchContactHandlesAcrossDatabases_def run_defs
      transformToContactInfo_def js_floor_quot_def js_round_exact)

subsection \<open>Deduplication\<close>

lemma entryKey_entry: "entryKey \<lparr>info_name = n, info_phone = h\<rparr> = dedupKey n h"
  by (simp add: entryKey_def)

lemma transformRows_length:
  "length (transformRows rows seen acc) \<le> length acc + length rows"
proof (induction rows arbitrary: seen acc)
  case Nil
  then show ?case by simp
next
  case (Cons row rows)
  show ?case
    using Cons.IH[of seen acc]
      Cons.IH[of "insert (dedupKey (buildFullName (row_firstName row) (row_lastName row) (row_organization row))
           (if row_handle_type row = phone_kind then normalizePhoneNumber (row_handle row) else row_handle row)) seen"
         "acc @ [\<lparr>info_name = buildFullName (row_firstName row) (row_lastName row) (row_organization row),
            info_phone = (if row_handle_type row = phone_kind then normalizePhoneNumber (row_handle row) else row_handle row)\<rparr>]"]
    by (auto simp: Let_def)
qed

lemma transformRows_distinct:
  assumes "distinct (map entryKey acc)" and "entryKey ` set acc \<subseteq> seen"
  shows "distinct (map entryKey (transformRows rows seen acc))"
  using assms
proof (induction rows arbitrary: seen acc)
  case Nil
  then show ?case by simp
next
  case (Cons row rows)
  let ?name = "buildFullName (row_firstName row) (row_lastName row) (row_organization row)"
  let ?handle = "if row_handle_type row = phone_kind
                 then normalizePhoneNumber (row_handle row) else row_handle row"
  let ?key = "dedupKey ?name ?handle"
  show ?case
  proof (cases "?handle = [] \<or> ?key \<in> seen")
    case True
    then have "transformRows (row # rows) seen acc = transformRows rows seen acc"
      by (auto simp: Let_def)
    with Cons show ?thesis by simp
  next
    case False
    then have step: "transformRows (row # rows) seen acc
        = transformRows rows (insert ?key seen) (acc @ [\<lparr>info_name = ?name, info_phone = ?handle\<rparr>])"
      by (auto simp: Let_def)
    have "distinct (map entryKey (acc @ [\<lparr>info_name = ?name, info_phone = ?handle\<rparr>]))"
      using Cons.prems False by (auto simp: entryKey_entry)
    moreover have "entryKey ` set (acc @ [\<lparr>info_name = ?name, info_phone = ?handle\<rparr>])
        \<subseteq> insert ?key seen"
      using Cons.prems by (auto simp: entryKey_entry)
    ultimately show ?thesis
      using Cons.IH step by simp
  qed
qed

lemma transformRows_nonempty:
  assumes "\<forall>c \<in> set acc. info_phone c \<noteq> []"
  shows "\<forall>c \<in> set (transformRows rows seen acc). info_phone c \<noteq> []"
  using assms
proof (induction rows arbitrary: seen acc)
  case Nil
  then show ?case by simp
next
  case (Cons row rows)
  let ?name = "buildFullName (row_firstName row) (row_lastName row) (row_organization row)"
  let ?handle = "if row_handle_type row = phone_kind
                 then normalizePhoneNumber (row_handle row) else row_handle row"
  let ?key = "dedupKey ?name ?handle"
  show ?case
  proof (cases "?handle = [] \<or> ?key \<in> seen")
    case True
    then have "transformRows (row # rows) seen acc = transformRows rows seen acc"
      by (auto simp: Let_def)
    with Cons show ?thesis by simp
  next
    case False
    then have step: "transformRows (row # rows) seen acc
        = transformRows rows (insert ?key seen) (acc @ [\<lparr>info_name = ?name, info_phone = ?handle\<rparr>])"
      by (auto simp: Let_def)
    have "\<forall>c \<in> set (acc @ [\<lparr>info_name = ?name, info_phone = ?handle\<rparr>]). info_phone c \<noteq> []"
      using Cons.prems False by auto
    from Cons.IH[OF this] step show ?thesis by simp
  qed
qed

lemma transformToContactInfo_holds:
  "length (transformToContactInfo rows) \<le> length rows \<and>
   distinct (map entryKey (transformToContactInfo rows)) \<and>
   distinct (map (\<lambda>c. (info_name c, info_phone c)) (transformToContactInfo rows)) \<and>
   (\<forall>c \<in> set (transformToContactInfo rows). info_phone c \<noteq> [])"
proof -
  have l: "length (transformToContactInfo rows) \<le> length rows"
    using transformRows_length[of rows "{}" "[]"] by (simp add: transformToContactInfo_def)
  have d: "distinct (map entryKey (transformToContactInfo rows))"
    using transformRows_distinct[of "[]" "{}" rows] by (simp add: transformToContactInfo_def)
  have "map entryKey (transformToContactInfo rows)
      = map (\<lambda>(n, h). dedupKey n h) (map (\<lambda>c. (info_name c, info_phone c)) (transformToContactInfo rows))"
    by (simp add: entryKey_def)
  with d have p: "distinct (map (\<lambda>c. (info_name c, info_phone c)) (transformToContactInfo rows))"
    using distinct_map by metis
  have n: "\<forall>c \<in> set (transformToContactInfo rows). info_phone c \<noteq> []"
    using transformRows_nonempty[of "[]" rows "{}"] by (simp add: transformToContactInfo_def)
  from l d p n show ?thesis by blast
qed

text \<open>
  C5 does not hold of the code where a name or a handle contains the separator of
  the key: the rows (Acme|sales, info@acme.com) and (Acme, sales|info@acme.com) have
  different (name, handle) pairs and the same key \<open>Acme|sales|info@acme.com\<close>, and the
  second is dropped as a duplicate of the first, although alone it yields an entry. (That
  rows with an empty handle are dropped, that the output has pairwise-distinct keys and
  that it is no longer than the input is lemma \<open>transformToContactInfo_holds\<close>.)
\<close>

theorem dedup_key_collision:
  "transformToContactInfo [emailRow ''Acme'' ''sales|info@acme.com'']
     = [\<lparr>info_name = ''Acme'', info_phone = ''sales|info@acme.com''\<rparr>] \<and>
   transformToContactInfo
     [emailRow ''Acme|sales'' ''info@acme.com'', emailRow ''Acme'' ''sales|info@acme.com'']
     = [\<lparr>info_name = ''Acme|sales'', info_phone = ''info@acme.com''\<rparr>]"
  by (simp add: transformToContactInfo_def emailRow_def buildFullName_def dedupKey_def)

end
